theory Spec2Isabelle
  imports Main "HOL-Library.Word"
begin

section \<open>Sparse DNN inference on one GPU: tiling, weight layout, layer pipeline\<close>

text \<open>
  The development follows \<^verbatim>\<open>BFOneGpu<T>\<close> (file \<^verbatim>\<open>bf_one_gpu.hpp\<close>) and the
  \<^verbatim>\<open>main\<close> of the converter (\<^verbatim>\<open>tsv_file_to_binary\<close>). Values of type
  \<^verbatim>\<open>size_t\<close> are natural numbers where no operation on them can wrap, and 64-bit words
  where the arithmetic is a ring identity; C++ \<^verbatim>\<open>int\<close> is 32 bits wide, two's complement.
\<close>

subsection \<open>Numeric types and their sizes\<close>

text \<open>
  The class template accepts exactly \<^verbatim>\<open>float\<close> and \<^verbatim>\<open>double\<close> (its
  \<^verbatim>\<open>static_assert\<close>). The sizes are those of every CUDA host platform:
  \<^verbatim>\<open>sizeof(int) = sizeof(float) = 4\<close>, \<^verbatim>\<open>sizeof(double) = 8\<close>.
\<close>

datatype numeric = Float | Double

fun sizeof :: "numeric \<Rightarrow> nat" where
  "sizeof Float = 4"
| "sizeof Double = 8"

definition sizeof_int :: nat where
  "sizeof_int = 4"

definition INT_MAX :: nat where
  "INT_MAX = 2147483647"

subsection \<open>Tiling: \<^verbatim>\<open>COL_BLK\<close> and \<^verbatim>\<open>N_SLAB\<close>\<close>

text \<open>
  Neither program raises an error of its own in this computation. What can go wrong is
  undefined behaviour of C++: the \<^verbatim>\<open>int\<close> counter \<^verbatim>\<open>max_divisor\<close> is incremented
  past \<^verbatim>\<open>INT_MAX\<close>, or \<^verbatim>\<open>num_neurons_per_layer / COL_BLK\<close> divides by zero.
  Both are results of the model, as are an access outside an array
  (\<^verbatim>\<open>OutOfBounds\<close>) and a failed CUDA call, which \<^verbatim>\<open>checkCuda\<close> makes fatal
  (\<^verbatim>\<open>CudaError\<close>).
\<close>

datatype error = SignedOverflow | DivisionByZero | OutOfBounds | CudaError

text \<open>The loop condition
  \<^verbatim>\<open>(n % max_divisor != 0) || (max_num_per_block < (n / max_divisor))\<close>.\<close>

definition keep_searching :: "nat \<Rightarrow> nat \<Rightarrow> nat \<Rightarrow> bool" where
  "keep_searching n max_num_per_block max_divisor \<longleftrightarrow>
     n mod max_divisor \<noteq> 0 \<or> max_num_per_block < n div max_divisor"

text \<open>
  \<^verbatim>\<open>while (...) { ++max_divisor; }\<close> with \<^verbatim>\<open>int max_divisor\<close>: the counter is
  positive throughout, so its conversion to \<^verbatim>\<open>size_t\<close> in \<^verbatim>\<open>%\<close> and \<^verbatim>\<open>/\<close>
  keeps its value.
\<close>

function search_divisor :: "nat \<Rightarrow> nat \<Rightarrow> nat \<Rightarrow> error + nat" where
  "search_divisor n max_num_per_block max_divisor =
     (if keep_searching n max_num_per_block max_divisor
      then (if INT_MAX \<le> max_divisor then Inl SignedOverflow
            else search_divisor n max_num_per_block (max_divisor + 1))
      else Inr max_divisor)"
  by pat_completeness auto
termination
  by (relation "measure (\<lambda>(n, m, d). INT_MAX - d)") auto

declare search_divisor.simps [simp del]

text \<open>
  The whole computation, lines 64 to 75 of the converter and 104 to 119 of the engine's
  constructor, which are the same text: given \<^verbatim>\<open>num_neurons_per_layer\<close> and
  \<^verbatim>\<open>max_num_per_block\<close> it yields \<^verbatim>\<open>(COL_BLK, N_SLAB)\<close>.
\<close>

definition col_blk :: "nat \<Rightarrow> nat \<Rightarrow> error + nat" where
  "col_blk n max_num_per_block =
     (if n \<le> max_num_per_block then Inr n
      else (case search_divisor n max_num_per_block 2 of
              Inl e \<Rightarrow> Inl e
            | Inr max_divisor \<Rightarrow> Inr (n div max_divisor)))"

definition tiling :: "nat \<Rightarrow> nat \<Rightarrow> error + (nat \<times> nat)" where
  "tiling n max_num_per_block =
     (case col_blk n max_num_per_block of
        Inl e \<Rightarrow> Inl e
      | Inr COL_BLK \<Rightarrow>
          (if COL_BLK = 0 then Inl DivisionByZero else Inr (COL_BLK, n div COL_BLK)))"

text \<open>
  The converter divides the shared-memory capacity by \<^verbatim>\<open>sizeof(float)\<close>, whatever
  the engine is instantiated with; the engine divides it by \<^verbatim>\<open>sizeof(T)\<close>.
\<close>

definition converter_tiling :: "nat \<Rightarrow> nat \<Rightarrow> error + (nat \<times> nat)" where
  "converter_tiling num_neurons_per_layer sharedMemPerBlock =
     tiling num_neurons_per_layer (sharedMemPerBlock div sizeof Float)"

definition engine_tiling :: "numeric \<Rightarrow> nat \<Rightarrow> nat \<Rightarrow> error + (nat \<times> nat)" where
  "engine_tiling T num_neurons_per_layer sharedMemPerBlock =
     tiling num_neurons_per_layer (sharedMemPerBlock div sizeof T)"

text \<open>What the tiling is meant to find: the largest divisor of \<open>n\<close> within the budget.\<close>

definition largest_fitting_divisor :: "nat \<Rightarrow> nat \<Rightarrow> nat \<Rightarrow> bool" where
  "largest_fitting_divisor n budget c \<longleftrightarrow>
     c dvd n \<and> c \<le> budget \<and> (\<forall>c'. c' dvd n \<and> c' \<le> budget \<longrightarrow> c' \<le> c)"

text \<open>Some divisor that the \<^verbatim>\<open>int\<close> counter can reach yields a tile within the budget.\<close>

definition fitting_divisor_in_int_range :: "nat \<Rightarrow> nat \<Rightarrow> bool" where
  "fitting_divisor_in_int_range n budget \<longleftrightarrow>
     (\<exists>d. 2 \<le> d \<and> d \<le> INT_MAX \<and> d dvd n \<and> n div d \<le> budget)"

subsection \<open>Layout of the pinned weight region\<close>

text \<open>
  The constructor computes the lengths below in \<^verbatim>\<open>size_t\<close>, here 64-bit words, so
  that every product and sum wraps as it does in the program. \<^verbatim>\<open>max_nnz_per_layer\<close>
  comes from \<^verbatim>\<open>find_max_nnz_binary\<close>, which reads the weight files; it is a parameter.
\<close>

type_synonym size_t = "64 word"

record layout =
  p_w_index_len :: size_t
  pad :: size_t
  pp_w_index_len :: size_t
  pp_wlen :: size_t
  pp_wsize :: size_t

definition sizeof_w :: "numeric \<Rightarrow> size_t" where
  "sizeof_w T = of_nat (sizeof T)"

definition weight_layout :: "numeric \<Rightarrow> size_t \<Rightarrow> size_t \<Rightarrow> size_t \<Rightarrow> layout" where
  "weight_layout T num_neurons_per_layer n_slab max_nnz_per_layer =
     (let p_len = num_neurons_per_layer * n_slab + max_nnz_per_layer + 1;
          pd = (if p_len mod sizeof_w T \<noteq> 0 then 1 else 0);
          pp_len = p_len + pd
      in \<lparr> p_w_index_len = p_len,
           pad = pd,
           pp_w_index_len = pp_len,
           pp_wlen = pp_len + (sizeof_w T div sizeof_w Float) * max_nnz_per_layer,
           pp_wsize = of_nat sizeof_int * pp_len + sizeof_w T * max_nnz_per_layer \<rparr>)"

text \<open>
  \<^verbatim>\<open>_h_pinned_weight + k * _pp_wlen\<close> is arithmetic on an \<^verbatim>\<open>int*\<close>: the address
  moves by \<^verbatim>\<open>sizeof(int)\<close> bytes for each unit. The region itself is allocated, and
  cleared, with \<^verbatim>\<open>_pp_wsize * num_layers\<close> bytes.
\<close>

definition layer_byte_offset :: "layout \<Rightarrow> size_t \<Rightarrow> size_t" where
  "layer_byte_offset l k = of_nat sizeof_int * (k * pp_wlen l)"

definition pinned_bytes :: "layout \<Rightarrow> size_t \<Rightarrow> size_t" where
  "pinned_bytes l num_layers = pp_wsize l * num_layers"

subsection \<open>Row compaction: \<^verbatim>\<open>_non_empty_rows\<close>\<close>

text \<open>
  Both arrays hold C++ \<^verbatim>\<open>int\<close>, a 32-bit word read as two's complement:
  \<^verbatim>\<open>rlenY[i] > 0\<close> is the signed comparison, and \<^verbatim>\<open>rowsY[nnz++] = i\<close> narrows the
  \<^verbatim>\<open>size_t\<close> index to \<^verbatim>\<open>int\<close>, which keeps its low 32 bits. An access beyond the
  end of either array is \<^verbatim>\<open>OutOfBounds\<close>.
\<close>

type_synonym int32 = "32 word"

function scan_rows ::
  "nat \<Rightarrow> int32 list \<Rightarrow> nat \<Rightarrow> int32 list \<Rightarrow> nat \<Rightarrow> error + (int32 list \<times> nat)" where
  "scan_rows num_inputs rlen i rows nnz =
     (if i < num_inputs then
        (if length rlen \<le> i then Inl OutOfBounds
         else if 0 <s rlen ! i then
           (if length rows \<le> nnz then Inl OutOfBounds
            else scan_rows num_inputs rlen (i + 1) (rows[nnz := of_nat i]) (nnz + 1))
         else scan_rows num_inputs rlen (i + 1) rows nnz)
      else Inr (rows, nnz))"
  by pat_completeness auto
termination
  by (relation "measure (\<lambda>(num_inputs, rlen, i, rows, nnz). num_inputs - i)") auto

declare scan_rows.simps [simp del]

text \<open>\<^verbatim>\<open>nnz = 0;\<close> and the loop from \<^verbatim>\<open>i = 0\<close>. The result is the array
  \<^verbatim>\<open>rowsY\<close> after the call and the count \<^verbatim>\<open>nnz\<close>.\<close>

definition non_empty_rows ::
  "nat \<Rightarrow> int32 list \<Rightarrow> int32 list \<Rightarrow> error + (int32 list \<times> nat)" where
  "non_empty_rows num_inputs rlen rows = scan_rows num_inputs rlen 0 rows 0"

text \<open>The indices the scan is meant to emit, in increasing order.\<close>

definition nonzero_rows :: "nat \<Rightarrow> int32 list \<Rightarrow> nat list" where
  "nonzero_rows num_inputs rlen = filter (\<lambda>i. 0 <s rlen ! i) [0..<num_inputs]"

subsection \<open>The layer pipeline: \<^verbatim>\<open>infer\<close> and \<^verbatim>\<open>_infer_BF\<close>\<close>

text \<open>
  The pipeline is a sequence of CUDA calls and host steps. Which calls are issued, and
  in which order, depends on \<^verbatim>\<open>_num_layers\<close> alone, so the program is first the list
  of its calls, each with the buffers it names; what a call does to the buffers, and
  what the two streams promise about it, are given afterwards.

  \<^verbatim>\<open>d_W\<close>, \<^verbatim>\<open>Y\<close>, \<^verbatim>\<open>rowsY\<close> and \<^verbatim>\<open>rlenY\<close> are vectors of two buffers, always
  indexed by a layer number modulo 2. \<open>MemcpyAsync b l\<close> is the copy of the block of
  layer \<open>l\<close> into \<^verbatim>\<open>d_W[b]\<close> on \<^verbatim>\<open>stream[0]\<close>; \<open>KernelLaunch l i o\<close> is the launch
  of \<^verbatim>\<open>bf_inference\<close> for layer \<open>l\<close> on \<^verbatim>\<open>stream[1]\<close>, on the buffers with index
  \<open>i\<close> as input and those with index \<open>o\<close> as output; \<open>StreamSynchronize k\<close> is
  \<^verbatim>\<open>cudaStreamSynchronize(stream[k])\<close>; \<open>NonEmptyRows b\<close> is the call of
  \<^verbatim>\<open>_non_empty_rows\<close> on \<^verbatim>\<open>rlenY[b]\<close> and \<^verbatim>\<open>rowsY[b]\<close>; \<open>Memset b\<close> clears
  \<^verbatim>\<open>Y[b]\<close>; \<open>Identify b\<close> launches \<^verbatim>\<open>identify\<close> on \<^verbatim>\<open>Y[b]\<close>; \<open>Memcpy b l\<close> is
  the blocking copy of \<^verbatim>\<open>infer\<close>.
\<close>

datatype call =
    Memcpy nat nat
  | MemcpyAsync nat nat
  | KernelLaunch nat nat nat
  | StreamSynchronize nat
  | NonEmptyRows nat
  | Memset nat
  | Identify nat
  | DeviceSynchronize

text \<open>One iteration of the loop over \<^verbatim>\<open>cur_layer\<close>. The loop runs only when
  \<^verbatim>\<open>_num_layers\<close> is positive, so \<^verbatim>\<open>_num_layers - 1\<close> does not wrap.\<close>

definition layer_calls :: "nat \<Rightarrow> nat \<Rightarrow> call list" where
  "layer_calls n_layers cur_layer =
     (if cur_layer \<noteq> n_layers - 1
      then [MemcpyAsync ((cur_layer + 1) mod 2) (cur_layer + 1)] else []) @
     [KernelLaunch cur_layer (cur_layer mod 2) ((cur_layer + 1) mod 2),
      StreamSynchronize 1,
      NonEmptyRows ((cur_layer + 1) mod 2),
      Memset (cur_layer mod 2),
      StreamSynchronize 0]"

text \<open>The iterations for a list of layers, one after the other.\<close>

definition layers_calls :: "nat \<Rightarrow> nat list \<Rightarrow> call list" where
  "layers_calls n_layers ls = concat (map (layer_calls n_layers) ls)"

text \<open>\<^verbatim>\<open>_infer_BF\<close>: the loop, then \<^verbatim>\<open>identify<T><<<16, 512>>>(Y[0], ...)\<close> and
  \<^verbatim>\<open>cudaDeviceSynchronize()\<close>.\<close>

definition infer_BF_calls :: "nat \<Rightarrow> call list" where
  "infer_BF_calls n_layers = layers_calls n_layers [0..<n_layers] @ [Identify 0, DeviceSynchronize]"

text \<open>\<^verbatim>\<open>infer\<close> copies layer 0 into \<^verbatim>\<open>d_W[0]\<close> with a blocking \<^verbatim>\<open>cudaMemcpy\<close>
  before it calls \<^verbatim>\<open>_infer_BF\<close>.\<close>

definition infer_calls :: "nat \<Rightarrow> call list" where
  "infer_calls n_layers = Memcpy 0 0 # infer_BF_calls n_layers"

subsection \<open>What the calls do to the buffers\<close>

text \<open>A vector of two buffers is a pair, read with \<open>at2\<close> and written with \<open>upd2\<close>.\<close>

definition at2 :: "'v \<times> 'v \<Rightarrow> nat \<Rightarrow> 'v" where
  "at2 p i = (if i = 0 then fst p else snd p)"

definition upd2 :: "'v \<times> 'v \<Rightarrow> nat \<Rightarrow> 'v \<Rightarrow> 'v \<times> 'v" where
  "upd2 p i v = (if i = 0 then (v, snd p) else (fst p, v))"

text \<open>
  The members of \<^verbatim>\<open>BFOneGpu\<close> that the pipeline reads. Activations have some type
  \<open>'a\<close> with a zero (the bytes \<^verbatim>\<open>cudaMemset\<close> writes are the value \<open>0\<close> of
  \<^verbatim>\<open>float\<close> and \<^verbatim>\<open>double\<close>); \<open>'w\<close> is a packed weight block of
  \<^verbatim>\<open>_pp_wsize\<close> bytes, and \<open>h_pinned_weight k\<close> is the block of layer \<open>k\<close> in
  the pinned region.
\<close>

record ('a, 'w) engine =
  bias :: 'a
  num_neurons_per_layer :: nat
  num_layers :: nat
  COL_BLK :: nat
  N_SLAB :: nat
  h_pinned_weight :: "nat \<Rightarrow> 'w"

record ('a, 'w) buffers =
  d_W :: "'w \<times> 'w"
  Y :: "'a list \<times> 'a list"
  rowsY :: "int32 list \<times> int32 list"
  rlenY :: "int32 list \<times> int32 list"
  nerowsY :: nat
  results :: "int32 list"

text \<open>
  The kernel \<^verbatim>\<open>bf_inference\<close> is defined in \<^verbatim>\<open>SNIG/bf/kernel.hpp\<close>, not in
  \<^verbatim>\<open>bf_one_gpu.hpp\<close>, so it is a parameter: a function from the arguments of the launch
  to what every cell of the buffers it is handed holds afterwards. The three pointers
  into \<^verbatim>\<open>d_W[cur_layer % 2]\<close> (row offsets, column indices, values) address one
  weight block, passed whole. A kernel can write any cell but cannot resize a buffer:
  \<open>store\<close> writes the cells back. The kernel \<^verbatim>\<open>identify\<close> is defined with
  \<^verbatim>\<open>bf_inference\<close> and is a parameter as well, from its four arguments to the
  contents of \<^verbatim>\<open>results\<close>.
\<close>

record ('a, 'w) kernel_args =
  kY0 :: "'a list"
  k_nerowsY :: nat
  k_rowsY0 :: "int32 list"
  k_rlenY0 :: "int32 list"
  k_COL_BLK :: nat
  k_N_SLAB :: nat
  k_num_neurons :: nat
  kW :: 'w
  k_bias :: 'a
  kY1 :: "'a list"
  k_rlenY1 :: "int32 list"

record ('a, 'w) kernel_writes =
  wY0 :: "nat \<Rightarrow> 'a"
  w_rowsY0 :: "nat \<Rightarrow> int32"
  w_rlenY0 :: "nat \<Rightarrow> int32"
  wW :: 'w
  wY1 :: "nat \<Rightarrow> 'a"
  w_rlenY1 :: "nat \<Rightarrow> int32"

type_synonym ('a, 'w) kernel = "('a, 'w) kernel_args \<Rightarrow> ('a, 'w) kernel_writes"

type_synonym 'a identify_kernel = "'a list \<Rightarrow> nat \<Rightarrow> nat \<Rightarrow> int32 list \<Rightarrow> int32 list"

definition store :: "(nat \<Rightarrow> 'v) \<Rightarrow> 'v list \<Rightarrow> 'v list" where
  "store f buf = map f [0..<length buf]"

text \<open>\<^verbatim>\<open>cudaMemset(p, 0, sizeof(T) * count)\<close> on a buffer of elements of type T;
  beyond the allocation the call fails.\<close>

definition cudaMemset0 :: "nat \<Rightarrow> 'a::zero list \<Rightarrow> error + 'a list" where
  "cudaMemset0 count buf =
     (if count \<le> length buf then Inr (replicate count 0 @ drop count buf) else Inl CudaError)"

text \<open>\<^verbatim>\<open>cudaMemcpy\<close> and \<^verbatim>\<open>cudaMemcpyAsync\<close> of the block of a layer from the pinned
  region into \<^verbatim>\<open>d_W[b]\<close>.\<close>

definition copy_weights :: "('a, 'w) engine \<Rightarrow> nat \<Rightarrow> nat \<Rightarrow> ('a, 'w) buffers \<Rightarrow> ('a, 'w) buffers" where
  "copy_weights e b layer s = s\<lparr>d_W := upd2 (d_W s) b (h_pinned_weight e layer)\<rparr>"

text \<open>The arguments of the launch \<^verbatim>\<open>bf_inference<T><<<...>>>(...)\<close> with input index
  \<open>i\<close> (\<^verbatim>\<open>cur_layer % 2\<close>) and output index \<open>o\<close> (\<^verbatim>\<open>(cur_layer + 1) % 2\<close>).\<close>

definition launch_args :: "('a, 'w) engine \<Rightarrow> nat \<Rightarrow> nat \<Rightarrow> ('a, 'w) buffers \<Rightarrow> ('a, 'w) kernel_args" where
  "launch_args e i o' s =
     \<lparr> kY0 = at2 (Y s) i,
       k_nerowsY = nerowsY s,
       k_rowsY0 = at2 (rowsY s) i,
       k_rlenY0 = at2 (rlenY s) i,
       k_COL_BLK = COL_BLK e,
       k_N_SLAB = N_SLAB e,
       k_num_neurons = num_neurons_per_layer e,
       kW = at2 (d_W s) i,
       k_bias = bias e,
       kY1 = at2 (Y s) o',
       k_rlenY1 = at2 (rlenY s) o' \<rparr>"

text \<open>The effect of the kernel, in place as soon as the compute stream has been
  synchronised.\<close>

definition launch ::
  "('a, 'w) kernel \<Rightarrow> ('a, 'w) engine \<Rightarrow> nat \<Rightarrow> nat \<Rightarrow> ('a, 'w) buffers \<Rightarrow> ('a, 'w) buffers" where
  "launch bf_inference e i o' s =
     (let w = bf_inference (launch_args e i o' s)
      in s\<lparr> d_W := upd2 (d_W s) i (wW w),
            Y := upd2 (upd2 (Y s) i (store (wY0 w) (at2 (Y s) i)))
                   o' (store (wY1 w) (at2 (Y s) o')),
            rowsY := upd2 (rowsY s) i (store (w_rowsY0 w) (at2 (rowsY s) i)),
            rlenY := upd2 (upd2 (rlenY s) i (store (w_rlenY0 w) (at2 (rlenY s) i)))
                       o' (store (w_rlenY1 w) (at2 (rlenY s) o')) \<rparr>)"

text \<open>The call of \<^verbatim>\<open>_non_empty_rows\<close> on the buffers with index \<open>b\<close>; it sets
  \<^verbatim>\<open>nerowsY\<close>.\<close>

definition compact_rows :: "nat \<Rightarrow> nat \<Rightarrow> ('a, 'w) buffers \<Rightarrow> error + ('a, 'w) buffers" where
  "compact_rows num_inputs b s =
     (case non_empty_rows num_inputs (at2 (rlenY s) b) (at2 (rowsY s) b) of
        Inl err \<Rightarrow> Inl err
      | Inr (rows, nnz) \<Rightarrow> Inr (s\<lparr>rowsY := upd2 (rowsY s) b rows, nerowsY := nnz\<rparr>))"

text \<open>The \<^verbatim>\<open>cudaMemset\<close> of \<^verbatim>\<open>Y[b]\<close> over
  \<^verbatim>\<open>sizeof(T) * num_inputs * _num_neurons_per_layer\<close> bytes.\<close>

definition reset_buffer ::
  "('a::zero, 'w) engine \<Rightarrow> nat \<Rightarrow> nat \<Rightarrow> ('a, 'w) buffers \<Rightarrow> error + ('a, 'w) buffers" where
  "reset_buffer e num_inputs b s =
     (case cudaMemset0 (num_inputs * num_neurons_per_layer e) (at2 (Y s) b) of
        Inl err \<Rightarrow> Inl err
      | Inr buf \<Rightarrow> Inr (s\<lparr>Y := upd2 (Y s) b buf\<rparr>))"

text \<open>Every call, on the buffers. A synchronisation changes no buffer; the first
  failure ends the run.\<close>

fun exec ::
  "('a::zero, 'w) kernel \<Rightarrow> 'a identify_kernel \<Rightarrow> ('a, 'w) engine \<Rightarrow> nat \<Rightarrow> call
     \<Rightarrow> ('a, 'w) buffers \<Rightarrow> error + ('a, 'w) buffers" where
  "exec bf_inference identify e num_inputs (Memcpy b l) s = Inr (copy_weights e b l s)"
| "exec bf_inference identify e num_inputs (MemcpyAsync b l) s = Inr (copy_weights e b l s)"
| "exec bf_inference identify e num_inputs (KernelLaunch l i o') s =
     Inr (launch bf_inference e i o' s)"
| "exec bf_inference identify e num_inputs (StreamSynchronize k) s = Inr s"
| "exec bf_inference identify e num_inputs (NonEmptyRows b) s = compact_rows num_inputs b s"
| "exec bf_inference identify e num_inputs (Memset b) s = reset_buffer e num_inputs b s"
| "exec bf_inference identify e num_inputs (Identify b) s =
     Inr (s\<lparr>results :=
            identify (at2 (Y s) b) num_inputs (num_neurons_per_layer e) (results s)\<rparr>)"
| "exec bf_inference identify e num_inputs DeviceSynchronize s = Inr s"

fun run ::
  "('a::zero, 'w) kernel \<Rightarrow> 'a identify_kernel \<Rightarrow> ('a, 'w) engine \<Rightarrow> nat \<Rightarrow> call list
     \<Rightarrow> ('a, 'w) buffers \<Rightarrow> error + ('a, 'w) buffers" where
  "run bf_inference identify e num_inputs [] s = Inr s"
| "run bf_inference identify e num_inputs (c # cs) s =
     (case exec bf_inference identify e num_inputs c s of
        Inl err \<Rightarrow> Inl err
      | Inr s' \<Rightarrow> run bf_inference identify e num_inputs cs s')"

text \<open>\<^verbatim>\<open>_infer_BF\<close> on the buffers it is handed.\<close>

definition infer_BF ::
  "('a::zero, 'w) kernel \<Rightarrow> 'a identify_kernel \<Rightarrow> ('a, 'w) engine \<Rightarrow> nat \<Rightarrow> ('a, 'w) buffers
     \<Rightarrow> error + ('a, 'w) buffers" where
  "infer_BF bf_inference identify e num_inputs s =
     run bf_inference identify e num_inputs (infer_BF_calls (num_layers e)) s"

text \<open>
  The buffers as \<^verbatim>\<open>infer\<close> has them before the loop. \<^verbatim>\<open>Y[0]\<close>, \<^verbatim>\<open>rowsY[0]\<close>,
  \<^verbatim>\<open>rlenY[0]\<close> and \<^verbatim>\<open>nerowsY\<close> hold what \<^verbatim>\<open>read_input_binary\<close> has left there
  (the input); \<^verbatim>\<open>rowsY[1]\<close>, \<^verbatim>\<open>rlenY[1]\<close> and \<^verbatim>\<open>results\<close> are cleared by
  \<^verbatim>\<open>cudaMemset\<close>. \<^verbatim>\<open>Y[1]\<close> and the two weight buffers are allocated and not written:
  their contents are whatever the allocation holds, the parameters \<open>fresh_Y\<close> and
  \<open>fresh_W\<close>.
\<close>

record 'a input =
  in_Y :: "nat \<Rightarrow> 'a"
  in_rows :: "nat \<Rightarrow> int32"
  in_rlen :: "nat \<Rightarrow> int32"
  in_nerows :: nat

definition infer_buffers ::
  "('a, 'w) engine \<Rightarrow> nat \<Rightarrow> 'a input \<Rightarrow> (nat \<Rightarrow> 'a) \<Rightarrow> 'w \<times> 'w \<Rightarrow> ('a, 'w) buffers" where
  "infer_buffers e num_inputs inp fresh_Y fresh_W =
     \<lparr> d_W = fresh_W,
       Y = (map (in_Y inp) [0..<num_inputs * num_neurons_per_layer e],
            map fresh_Y [0..<num_inputs * num_neurons_per_layer e]),
       rowsY = (map (in_rows inp) [0..<num_inputs], replicate num_inputs 0),
       rlenY = (map (in_rlen inp) [0..<num_inputs], replicate num_inputs 0),
       nerowsY = in_nerows inp,
       results = replicate num_inputs 0 \<rparr>"

text \<open>\<^verbatim>\<open>infer\<close>: the copy of layer 0, then \<^verbatim>\<open>_infer_BF\<close>.\<close>

definition infer ::
  "('a::zero, 'w) kernel \<Rightarrow> 'a identify_kernel \<Rightarrow> ('a, 'w) engine \<Rightarrow> nat \<Rightarrow> 'a input
     \<Rightarrow> (nat \<Rightarrow> 'a) \<Rightarrow> 'w \<times> 'w \<Rightarrow> error + ('a, 'w) buffers" where
  "infer bf_inference identify e num_inputs inp fresh_Y fresh_W =
     run bf_inference identify e num_inputs (infer_calls (num_layers e))
       (infer_buffers e num_inputs inp fresh_Y fresh_W)"

subsection \<open>What the streams promise\<close>

text \<open>
  A stream runs what is enqueued on it at some time before the host's next
  synchronisation with that stream returns. So the device keeps the copies in flight
  on \<^verbatim>\<open>stream[0]\<close>, the kernels in flight on \<^verbatim>\<open>stream[1]\<close> (as pairs of the index
  read and the index written), and for each weight buffer the layer whose block is
  completely there, if any. A step is \<open>None\<close> when the call races with work in flight:
  a copy into a weight buffer that a kernel in flight reads, or a launch on a weight
  buffer that does not yet hold the layer's block.
\<close>

record device =
  copying :: "(nat \<times> nat) list"
  running :: "(nat \<times> nat) list"
  resident :: "nat option \<times> nat option"

definition idle :: device where
  "idle = \<lparr> copying = [], running = [], resident = (None, None) \<rparr>"

definition land_copies :: "(nat \<times> nat) list \<Rightarrow> nat option \<times> nat option \<Rightarrow> nat option \<times> nat option" where
  "land_copies cs r = fold (\<lambda>(b, l) r. upd2 r b (Some l)) cs r"

fun weight_step :: "call \<Rightarrow> device \<Rightarrow> device option" where
  "weight_step (Memcpy b l) d =
     (if b \<in> fst ` set (running d) then None
      else Some (d\<lparr>resident := upd2 (resident d) b (Some l)\<rparr>))"
| "weight_step (MemcpyAsync b l) d =
     (if b \<in> fst ` set (running d) then None
      else Some (d\<lparr>copying := copying d @ [(b, l)], resident := upd2 (resident d) b None\<rparr>))"
| "weight_step (KernelLaunch l i o') d =
     (if at2 (resident d) i = Some l then Some (d\<lparr>running := running d @ [(i, o')]\<rparr>) else None)"
| "weight_step (StreamSynchronize s) d =
     Some (if s = 0 then d\<lparr>copying := [], resident := land_copies (copying d) (resident d)\<rparr>
           else if s = 1 then d\<lparr>running := []\<rparr>
           else d)"
| "weight_step DeviceSynchronize d =
     Some (d\<lparr>copying := [], running := [], resident := land_copies (copying d) (resident d)\<rparr>)"
| "weight_step (NonEmptyRows b) d = Some d"
| "weight_step (Memset b) d = Some d"
| "weight_step (Identify b) d = Some d"

fun weights_safe :: "call list \<Rightarrow> device \<Rightarrow> device option" where
  "weights_safe [] d = Some d"
| "weights_safe (c # cs) d =
     (case weight_step c d of None \<Rightarrow> None | Some d' \<Rightarrow> weights_safe cs d')"

text \<open>
  The host scan of \<^verbatim>\<open>_non_empty_rows\<close> reads managed memory that the kernel writes.
  The state is the list of kernels in flight on \<^verbatim>\<open>stream[1]\<close>; the scan is safe when
  there is none.
\<close>

fun rows_step :: "call \<Rightarrow> (nat \<times> nat) list \<Rightarrow> (nat \<times> nat) list option" where
  "rows_step (KernelLaunch l i o') ks = Some (ks @ [(i, o')])"
| "rows_step (StreamSynchronize s) ks = Some (if s = 1 then [] else ks)"
| "rows_step DeviceSynchronize ks = Some []"
| "rows_step (NonEmptyRows b) ks = (if ks = [] then Some ks else None)"
| "rows_step (Memcpy b l) ks = Some ks"
| "rows_step (MemcpyAsync b l) ks = Some ks"
| "rows_step (Memset b) ks = Some ks"
| "rows_step (Identify b) ks = Some ks"

fun rows_safe :: "call list \<Rightarrow> (nat \<times> nat) list \<Rightarrow> (nat \<times> nat) list option" where
  "rows_safe [] ks = Some ks"
| "rows_safe (c # cs) ks =
     (case rows_step c ks of None \<Rightarrow> None | Some ks' \<Rightarrow> rows_safe cs ks')"

subsection \<open>A kernel to run the pipeline with\<close>

text \<open>Row \<open>r\<close> of an activation buffer with \<open>n\<close> columns, and the rows the launch
  is told are active: the first \<^verbatim>\<open>nerowsY\<close> entries of \<^verbatim>\<open>rowsY\<close>.\<close>

definition row_of :: "nat \<Rightarrow> 'a list \<Rightarrow> nat \<Rightarrow> 'a list" where
  "row_of n buf r = take n (drop (r * n) buf)"

definition active_rows :: "('a, 'w) kernel_args \<Rightarrow> nat list" where
  "active_rows a = map unat (take (k_nerowsY a) (k_rowsY0 a))"

text \<open>
  Modelled from the spec: the device kernel \<^verbatim>\<open>bf_inference\<close> of
  \<^verbatim>\<open>SNIG/bf/kernel.hpp\<close>, whose definition is missing. Section 4.4 of the
  specification gives its inputs (active-row list, row lengths, packed weights, tile
  width, slab count, bias, input activations) and its output: the next-stage
  activations for the active rows and this stage's row lengths, a row's length being the
  number of its nonzero activations. One thread group works on each active row, so
  the kernel writes the activations and the length of the active rows and leaves every
  other cell as it finds it; launched with no active row it writes nothing. The
  arithmetic \<^verbatim>\<open>y[r][n] = relu(sum of x[r][k] * W[k][n] + bias)\<close> is floating point and
  stays a parameter, \<open>neuron\<close>. The properties of the pipeline below hold for every
  kernel; this one serves to run the pipeline on a small input.
\<close>

definition spec_bf_inference ::
  "('w \<Rightarrow> 'a \<Rightarrow> 'a list \<Rightarrow> nat \<Rightarrow> 'a) \<Rightarrow> ('a::zero, 'w) kernel" where
  "spec_bf_inference neuron a =
     (let n = k_num_neurons a;
          y = (\<lambda>r j. neuron (kW a) (k_bias a) (row_of n (kY0 a) r) j)
      in \<lparr> wY0 = (\<lambda>i. kY0 a ! i),
           w_rowsY0 = (\<lambda>i. k_rowsY0 a ! i),
           w_rlenY0 = (\<lambda>i. k_rlenY0 a ! i),
           wW = kW a,
           wY1 = (\<lambda>i. if i div n \<in> set (active_rows a) then y (i div n) (i mod n)
                       else kY1 a ! i),
           w_rlenY1 = (\<lambda>r. if r \<in> set (active_rows a)
                            then of_nat (length (filter (\<lambda>j. y r j \<noteq> 0) [0..<n]))
                            else k_rlenY1 a ! r) \<rparr>)"

subsection \<open>Buffer sizes\<close>

text \<open>\<^verbatim>\<open>infer\<close> allocates the activation buffers with
  \<^verbatim>\<open>num_inputs * num_neurons_per_layer\<close> elements and the row buffers with
  \<^verbatim>\<open>num_inputs\<close>; nothing in the loop changes a size.\<close>

definition sized :: "nat \<Rightarrow> 'v list \<times> 'v list \<Rightarrow> bool" where
  "sized m p \<longleftrightarrow> length (fst p) = m \<and> length (snd p) = m"

definition allocated :: "('a, 'w) engine \<Rightarrow> nat \<Rightarrow> ('a, 'w) buffers \<Rightarrow> bool" where
  "allocated e num_inputs s \<longleftrightarrow>
     sized (num_inputs * num_neurons_per_layer e) (Y s) \<and>
     sized num_inputs (rowsY s) \<and>
     sized num_inputs (rlenY s)"

text \<open>The calls of \<^verbatim>\<open>infer\<close> through the first \<open>k\<close> iterations of the loop, and those
  issued before the launch of layer \<open>L\<close>.\<close>

definition calls_through :: "nat \<Rightarrow> nat \<Rightarrow> call list" where
  "calls_through n_layers k = Memcpy 0 0 # layers_calls n_layers [0..<k]"

definition calls_until_launch :: "nat \<Rightarrow> nat \<Rightarrow> call list" where
  "calls_until_launch n_layers L =
     calls_through n_layers L @
     (if L \<noteq> n_layers - 1 then [MemcpyAsync ((L + 1) mod 2) (L + 1)] else [])"

subsection \<open>A small run\<close>

text \<open>
  Two input rows, two neurons per layer, activations in \<open>int\<close>, no weights to speak
  of: a neuron adds the bias to its own input and clips at zero. The rows are
  \<open>[2, 0]\<close> and \<open>[1, 0]\<close>, both active; the fresh allocation of \<^verbatim>\<open>Y[1]\<close> holds 7
  in every cell.
\<close>

definition demo_neuron :: "unit \<Rightarrow> int \<Rightarrow> int list \<Rightarrow> nat \<Rightarrow> int" where
  "demo_neuron w b x j = max 0 (x ! j + b)"

definition demo_engine :: "nat \<Rightarrow> (int, unit) engine" where
  "demo_engine layers =
     \<lparr> bias = - 1, num_neurons_per_layer = 2, num_layers = layers, COL_BLK = 2, N_SLAB = 1,
       h_pinned_weight = (\<lambda>k. ()) \<rparr>"

definition demo_input :: "int input" where
  "demo_input =
     \<lparr> in_Y = (\<lambda>i. [2, 0, 1, 0] ! i), in_rows = (\<lambda>i. [0, 1] ! i),
       in_rlen = (\<lambda>i. [1, 1] ! i), in_nerows = 2 \<rparr>"

definition demo_buffers :: "nat \<Rightarrow> (int, unit) buffers" where
  "demo_buffers layers = infer_buffers (demo_engine layers) 2 demo_input (\<lambda>i. 7) ((), ())"

section \<open>Properties\<close>

subsection \<open>Tiling\<close>

lemma search_divisor_Inr:
  "search_divisor n m d = Inr e \<Longrightarrow> d \<le> INT_MAX \<Longrightarrow>
     d \<le> e \<and> e \<le> INT_MAX \<and> \<not> keep_searching n m e \<and> (\<forall>k. d \<le> k \<and> k < e \<longrightarrow> keep_searching n m k)"
proof (induction n m d rule: search_divisor.induct)
  case (1 n m d)
  show ?case
  proof (cases "keep_searching n m d")
    case False
    with "1.prems" show ?thesis
      by (auto simp: search_divisor.simps [of n m d])
  next
    case True
    with "1.prems" have lt: "\<not> INT_MAX \<le> d" and rec: "search_divisor n m (d + 1) = Inr e"
      by (auto simp: search_divisor.simps [of n m d] split: if_splits)
    from lt have "d + 1 \<le> INT_MAX" by simp
    from "1.IH" [OF True lt rec this] have ih: "d + 1 \<le> e" "e \<le> INT_MAX" "\<not> keep_searching n m e"
      "\<forall>k. d + 1 \<le> k \<and> k < e \<longrightarrow> keep_searching n m k" by auto
    have "\<forall>k. d \<le> k \<and> k < e \<longrightarrow> keep_searching n m k"
    proof (intro allI impI)
      fix k assume "d \<le> k \<and> k < e"
      then have "k = d \<or> (d + 1 \<le> k \<and> k < e)" by arith
      with True ih(4) show "keep_searching n m k" by auto
    qed
    with ih show ?thesis by simp
  qed
qed

lemma search_divisor_Inl:
  "search_divisor n m d = Inl x \<Longrightarrow>
     x = SignedOverflow \<and> (\<forall>k. d \<le> k \<and> k \<le> INT_MAX \<longrightarrow> keep_searching n m k)"
proof (induction n m d rule: search_divisor.induct)
  case (1 n m d)
  show ?case
  proof (cases "keep_searching n m d")
    case False
    with "1.prems" show ?thesis
      by (simp add: search_divisor.simps [of n m d])
  next
    case True
    show ?thesis
    proof (cases "INT_MAX \<le> d")
      case True
      have "keep_searching n m k" if "d \<le> k \<and> k \<le> INT_MAX" for k
      proof -
        from that True have "k = d" by arith
        with \<open>keep_searching n m d\<close> show ?thesis by simp
      qed
      moreover from \<open>keep_searching n m d\<close> True "1.prems" have "x = SignedOverflow"
        by (simp add: search_divisor.simps [of n m d])
      ultimately show ?thesis by blast
    next
      case False
      with \<open>keep_searching n m d\<close> "1.prems" have rec: "search_divisor n m (d + 1) = Inl x"
        by (simp add: search_divisor.simps [of n m d])
      from "1.IH" [OF \<open>keep_searching n m d\<close> False rec]
      have ih: "x = SignedOverflow" "\<forall>k. d + 1 \<le> k \<and> k \<le> INT_MAX \<longrightarrow> keep_searching n m k"
        by auto
      have "\<forall>k. d \<le> k \<and> k \<le> INT_MAX \<longrightarrow> keep_searching n m k"
      proof (intro allI impI)
        fix k assume "d \<le> k \<and> k \<le> INT_MAX"
        then have "k = d \<or> (d + 1 \<le> k \<and> k \<le> INT_MAX)" by arith
        with \<open>keep_searching n m d\<close> ih(2) show "keep_searching n m k" by auto
      qed
      with ih(1) show ?thesis by simp
    qed
  qed
qed

lemma search_divisor_overflow:
  assumes "\<forall>k. 2 \<le> k \<and> k \<le> INT_MAX \<longrightarrow> keep_searching n m k"
  shows "search_divisor n m 2 = Inl SignedOverflow"
proof (cases "search_divisor n m 2")
  case (Inl x)
  with search_divisor_Inl [OF Inl] show ?thesis by simp
next
  case (Inr e)
  have "(2::nat) \<le> INT_MAX" by (simp add: INT_MAX_def)
  from search_divisor_Inr [OF Inr this] assms show ?thesis by auto
qed

lemma fit_iff_not_keep:
  "0 < d \<Longrightarrow> \<not> keep_searching n m d \<longleftrightarrow> d dvd n \<and> n div d \<le> m"
  by (auto simp: keep_searching_def dvd_eq_mod_eq_0)

lemma col_blk_largest:
  assumes n: "1 \<le> n" and m: "1 \<le> m" and big: "m < n"
    and sd: "search_divisor n m 2 = Inr d"
  shows "largest_fitting_divisor n m (n div d)"
proof -
  have "(2::nat) \<le> INT_MAX" by (simp add: INT_MAX_def)
  from search_divisor_Inr [OF sd this]
  have d2: "2 \<le> d" and stop: "\<not> keep_searching n m d"
    and least: "\<And>k. 2 \<le> k \<Longrightarrow> k < d \<Longrightarrow> keep_searching n m k" by auto
  from stop d2 have dvd: "d dvd n" and fit: "n div d \<le> m"
    by (auto simp: keep_searching_def dvd_eq_mod_eq_0)
  have "n div d dvd n" using dvd by (metis dvd_div_mult_self dvd_triv_left)
  moreover have "c' \<le> n div d" if c': "c' dvd n" "c' \<le> m" for c'
  proof -
    from c'(1) obtain k where k: "n = c' * k" by (auto elim: dvdE)
    with n have pos: "0 < c'" "0 < k" by (auto intro: Nat.gr0I)
    from k pos have kd: "k dvd n" "n div k = c'" by auto
    have "2 \<le> k"
    proof (rule ccontr)
      assume "\<not> 2 \<le> k"
      with pos have "k = 1" by arith
      with k c'(2) big show False by simp
    qed
    have "\<not> keep_searching n m k" using kd c'(2) by (auto simp: keep_searching_def)
    with least [OF \<open>2 \<le> k\<close>] have "d \<le> k" by (meson not_le)
    then have "n div k \<le> n div d" using d2 by (intro div_le_mono2) auto
    with kd show ?thesis by simp
  qed
  ultimately show ?thesis using fit by (auto simp: largest_fitting_divisor_def)
qed


lemma int_range_suffices:
  assumes "1 \<le> n" "1 \<le> budget" "n \<le> INT_MAX"
  shows "n \<le> budget \<or> fitting_divisor_in_int_range n budget"
proof (cases "n \<le> budget")
  case False
  with assms have "2 \<le> n" by arith
  with assms have "2 \<le> n \<and> n \<le> INT_MAX \<and> n dvd n \<and> n div n \<le> budget" by simp
  then show ?thesis unfolding fitting_divisor_in_int_range_def by blast
qed simp

text \<open>
  Claim C1, as the code has it. For \<open>n \<ge> 1\<close> neurons per layer and a budget of at
  least 1: when \<open>n\<close> fits the budget, or some divisor \<open>d\<close> of \<open>n\<close> with
  \<open>2 \<le> d \<le> INT_MAX\<close> gives a tile \<open>n div d\<close> within the budget, the computation
  returns \<^verbatim>\<open>COL_BLK\<close>, the largest divisor of \<open>n\<close> within the budget (\<open>n\<close> itself
  when it fits), and \<^verbatim>\<open>N_SLAB = n / COL_BLK\<close>. Otherwise the \<^verbatim>\<open>int\<close> counter
  overflows. Every \<open>n \<le> INT_MAX\<close> is in the first case. No error of the program's
  own is raised in either case.
\<close>

theorem tiling_largest_fitting_divisor:
  assumes n: "1 \<le> n" and b: "1 \<le> budget"
  shows "(if n \<le> budget \<or> fitting_divisor_in_int_range n budget
          then \<exists>c. tiling n budget = Inr (c, n div c) \<and> largest_fitting_divisor n budget c \<and>
                   (n \<le> budget \<longrightarrow> c = n)
          else tiling n budget = Inl SignedOverflow) \<and>
         (n \<le> INT_MAX \<longrightarrow> n \<le> budget \<or> fitting_divisor_in_int_range n budget)"
proof -
  have fits: "tiling n budget = Inr (n, n div n) \<and> largest_fitting_divisor n budget n"
    if "n \<le> budget"
    using that n by (auto simp: tiling_def col_blk_def largest_fitting_divisor_def dest: dvd_imp_le)
  have found: "\<exists>c. tiling n budget = Inr (c, n div c) \<and> largest_fitting_divisor n budget c"
    if big: "budget < n" and ex: "fitting_divisor_in_int_range n budget"
  proof (cases "search_divisor n budget 2")
    case (Inl x)
    from ex obtain d where d: "2 \<le> d" "d \<le> INT_MAX" "d dvd n" "n div d \<le> budget"
      unfolding fitting_divisor_in_int_range_def by blast
    then have "\<not> keep_searching n budget d" by (simp add: fit_iff_not_keep)
    with search_divisor_Inl [OF Inl] d show ?thesis by blast
  next
    case (Inr d)
    have "(2::nat) \<le> INT_MAX" by (simp add: INT_MAX_def)
    from search_divisor_Inr [OF Inr this]
    have d2: "2 \<le> d" and stop: "\<not> keep_searching n budget d" by auto
    then have "d dvd n" by (simp add: fit_iff_not_keep)
    with n have "d \<le> n" by (auto dest: dvd_imp_le)
    with d2 have "n div d \<noteq> 0" by (simp add: div_eq_0_iff)
    with Inr big have "tiling n budget = Inr (n div d, n div (n div d))"
      by (simp add: tiling_def col_blk_def)
    with col_blk_largest [OF n b big Inr] show ?thesis by blast
  qed
  have none: "tiling n budget = Inl SignedOverflow"
    if big: "budget < n" and nex: "\<not> fitting_divisor_in_int_range n budget"
  proof -
    have "keep_searching n budget k" if "2 \<le> k \<and> k \<le> INT_MAX" for k
      using that nex fit_iff_not_keep [of k n budget]
      unfolding fitting_divisor_in_int_range_def by auto
    then have "search_divisor n budget 2 = Inl SignedOverflow"
      by (intro search_divisor_overflow) blast
    with big show ?thesis by (simp add: tiling_def col_blk_def)
  qed
  show ?thesis
  proof (cases "n \<le> budget")
    case True
    with fits int_range_suffices [OF n b] show ?thesis by auto
  next
    case False
    then have big: "budget < n" by simp
    show ?thesis
    proof (cases "fitting_divisor_in_int_range n budget")
      case True
      with found [OF big] False show ?thesis by auto
    next
      case nex: False
      with none [OF big] False int_range_suffices [OF n b] show ?thesis by auto
    qed
  qed
qed

lemma tiling_16384_12288: "tiling 16384 12288 = Inr (8192, 2)"
  by (simp add: tiling_def col_blk_def search_divisor.simps keep_searching_def)

theorem tiling_largest_fitting_divisor_witness:
  "tiling 16384 12288 = Inr (8192, 16384 div 8192) \<and> largest_fitting_divisor 16384 12288 8192"
proof -
  have "fitting_divisor_in_int_range 16384 12288"
    unfolding fitting_divisor_in_int_range_def
    by (rule exI [of _ 2]) (simp add: INT_MAX_def)
  with tiling_largest_fitting_divisor [of 16384 12288]
  show ?thesis by (auto simp: tiling_16384_12288)
qed

text \<open>
  With \<open>2 ^ 45\<close> neurons and the budget 12288 (48 KB of \<^verbatim>\<open>float\<close>), the divisor
  \<open>2 ^ 32\<close> gives a tile that fits, but no divisor an \<^verbatim>\<open>int\<close> can hold does: the
  counter overflows and no tiling is returned.
\<close>

theorem tiling_int_counter_overflows:
  "(1::nat) \<le> 35184372088832 \<and> (1::nat) \<le> 12288 \<and>
   (4294967296::nat) dvd 35184372088832 \<and> (35184372088832::nat) div 4294967296 \<le> 12288 \<and>
   tiling 35184372088832 12288 = Inl SignedOverflow"
proof -
  have "keep_searching 35184372088832 12288 k" if k: "2 \<le> k \<and> k \<le> INT_MAX" for k
  proof -
    from k have "(35184372088832::nat) div INT_MAX \<le> 35184372088832 div k"
      by (intro div_le_mono2) auto
    then have "(12288::nat) < 35184372088832 div k" by (simp add: INT_MAX_def)
    then show ?thesis by (simp add: keep_searching_def)
  qed
  then have "search_divisor 35184372088832 12288 2 = Inl SignedOverflow"
    by (intro search_divisor_overflow) blast
  then show ?thesis by (simp add: tiling_def col_blk_def)
qed

text \<open>
  Claim C2, as the code has it. The converter and the engine derive the same
  \<^verbatim>\<open>(COL_BLK, N_SLAB)\<close> from the same capacity when the engine is instantiated with
  \<^verbatim>\<open>float\<close>; with \<^verbatim>\<open>double\<close> they do when the layer fits the engine's budget
  \<open>cap div sizeof Double\<close>.
\<close>

theorem converter_engine_tiling_float:
  "converter_tiling n cap = engine_tiling Float n cap \<and>
   (n \<le> cap div sizeof Double \<longrightarrow> converter_tiling n cap = engine_tiling Double n cap)"
proof -
  have "cap div 8 \<le> cap div 4" by (intro div_le_mono2) auto
  then show ?thesis
    by (auto simp: converter_tiling_def engine_tiling_def tiling_def col_blk_def)
qed

theorem converter_engine_tiling_float_witness:
  "converter_tiling 16384 49152 = engine_tiling Float 16384 49152 \<and>
   (4096::nat) \<le> 49152 div sizeof Double \<and> converter_tiling 4096 49152 = engine_tiling Double 4096 49152 \<and>
   engine_tiling Double 4096 49152 = Inr (4096, 1)"
  using converter_engine_tiling_float [of 16384 49152] converter_engine_tiling_float [of 4096 49152]
  by (simp add: engine_tiling_def tiling_def col_blk_def)

text \<open>
  With 16384 neurons, 48 KB of shared memory and \<^verbatim>\<open>double\<close>, the converter packs
  for tiles of 8192 columns in 2 slabs and the engine reads tiles of 4096 columns in 4
  slabs.
\<close>

theorem converter_engine_tiling_double_differs:
  "converter_tiling 16384 49152 = Inr (8192, 2) \<and> engine_tiling Double 16384 49152 = Inr (4096, 4)"
  by (simp add: converter_tiling_def engine_tiling_def tiling_def col_blk_def
      search_divisor.simps keep_searching_def INT_MAX_def)

subsection \<open>Layout of the pinned weight region\<close>

lemma sizeof_ratio: "of_nat sizeof_int * (sizeof_w T div sizeof_w Float) = sizeof_w T"
  by (cases T) (simp_all add: sizeof_w_def sizeof_int_def)

lemma int_len_is_size:
  "of_nat sizeof_int * pp_wlen (weight_layout T n s z) = pp_wsize (weight_layout T n s z)"
proof -
  have "of_nat sizeof_int * ((sizeof_w T div sizeof_w Float) * z) = sizeof_w T * z"
    using sizeof_ratio [of T] by (simp add: mult.assoc [symmetric])
  then show ?thesis
    by (simp add: weight_layout_def Let_def distrib_left)
qed

lemma block_in_region:
  fixes w k nl :: size_t
  assumes nowrap: "unat w * unat nl < 2 ^ 64" and k: "k < nl"
  shows "unat (k * w) = unat k * unat w \<and> unat (k * w) + unat w \<le> unat (w * nl)"
proof -
  from k have lt: "unat k < unat nl" by (simp add: word_less_nat_alt)
  then have "Suc (unat k) * unat w \<le> unat nl * unat w" by (intro mult_le_mono1) simp
  then have le: "unat k * unat w + unat w \<le> unat w * unat nl" by (simp add: mult.commute)
  with nowrap have "unat k * unat w < 2 ^ LENGTH(64)" by simp
  then have a: "unat (k * w) = unat k * unat w" by (simp only: unat_mult_lem)
  from nowrap have "unat w * unat nl < 2 ^ LENGTH(64)" by simp
  then have b: "unat (w * nl) = unat w * unat nl" by (simp only: unat_mult_lem)
  from a b le show ?thesis by simp
qed

text \<open>
  Claim C10, as the code has it. For \<^verbatim>\<open>float\<close> and for \<^verbatim>\<open>double\<close>, in the wrapping
  arithmetic of \<^verbatim>\<open>size_t\<close>: \<^verbatim>\<open>sizeof(int) * _pp_wlen = _pp_wsize\<close>, so the pointer
  \<^verbatim>\<open>_h_pinned_weight + k * _pp_wlen\<close> is \<open>k * _pp_wsize\<close> bytes into the region. When
  the size of the region, \<^verbatim>\<open>_pp_wsize * num_layers\<close>, does not wrap, then for every
  \<open>k\<close> below \<^verbatim>\<open>num_layers\<close> that offset is the start of block \<open>k\<close> and the block ends
  within the bytes allocated and cleared.
\<close>

theorem pinned_stride_is_block_size:
  fixes k nl :: size_t
  shows "of_nat sizeof_int * pp_wlen (weight_layout T n s z) = pp_wsize (weight_layout T n s z) \<and>
   layer_byte_offset (weight_layout T n s z) k = k * pp_wsize (weight_layout T n s z) \<and>
   (unat (pp_wsize (weight_layout T n s z)) * unat nl < 2 ^ 64 \<and> k < nl \<longrightarrow>
      unat (layer_byte_offset (weight_layout T n s z) k) =
        unat k * unat (pp_wsize (weight_layout T n s z)) \<and>
      unat (layer_byte_offset (weight_layout T n s z) k) + unat (pp_wsize (weight_layout T n s z))
        \<le> unat (pinned_bytes (weight_layout T n s z) nl))"
proof -
  let ?l = "weight_layout T n s z"
  have a: "of_nat sizeof_int * pp_wlen ?l = pp_wsize ?l" by (rule int_len_is_size)
  have "layer_byte_offset ?l k = k * (of_nat sizeof_int * pp_wlen ?l)"
    by (simp add: layer_byte_offset_def mult.left_commute)
  with a have b: "layer_byte_offset ?l k = k * pp_wsize ?l" by simp
  have c: "unat (layer_byte_offset ?l k) = unat k * unat (pp_wsize ?l) \<and>
      unat (layer_byte_offset ?l k) + unat (pp_wsize ?l) \<le> unat (pinned_bytes ?l nl)"
    if "unat (pp_wsize ?l) * unat nl < 2 ^ 64 \<and> k < nl"
    using that block_in_region [of "pp_wsize ?l" nl k] b by (simp add: pinned_bytes_def)
  from a b c show ?thesis by blast
qed

lemma layout_float_example:
  "weight_layout Float 4 1 5 =
     \<lparr> p_w_index_len = 10, pad = 1, pp_w_index_len = 11, pp_wlen = 16, pp_wsize = 64 \<rparr>"
  by (simp add: weight_layout_def sizeof_w_def sizeof_int_def Let_def)

lemma layout_double_example:
  "weight_layout Double 4 1 5 =
     \<lparr> p_w_index_len = 10, pad = 1, pp_w_index_len = 11, pp_wlen = 21, pp_wsize = 84 \<rparr>"
  by (simp add: weight_layout_def sizeof_w_def sizeof_int_def Let_def)

theorem pinned_stride_is_block_size_witness:
  "pp_wlen (weight_layout Double 4 1 5) = 21 \<and> pp_wsize (weight_layout Double 4 1 5) = 84 \<and>
   layer_byte_offset (weight_layout Double 4 1 5) 2 = 168 \<and>
   pp_wlen (weight_layout Float 4 1 5) = 16 \<and> pp_wsize (weight_layout Float 4 1 5) = 64 \<and>
   layer_byte_offset (weight_layout Float 4 1 5) 2 = 128 \<and>
   unat (pp_wsize (weight_layout Double 4 1 5)) * unat (3 :: size_t) < 2 ^ 64 \<and>
   (2 :: size_t) < 3 \<and>
   pinned_bytes (weight_layout Double 4 1 5) 3 = 252 \<and>
   unat (layer_byte_offset (weight_layout Double 4 1 5) 2) +
     unat (pp_wsize (weight_layout Double 4 1 5))
     \<le> unat (pinned_bytes (weight_layout Double 4 1 5) 3)"
proof -
  have h: "unat (pp_wsize (weight_layout Double 4 1 5)) * unat (3 :: size_t) < 2 ^ 64 \<and>
      (2 :: size_t) < 3"
    by (simp add: layout_double_example)
  have p: "pinned_bytes (weight_layout Double 4 1 5) 3 = 252"
    by (simp add: pinned_bytes_def layout_double_example)
  from pinned_stride_is_block_size [of Double 4 1 5 2 3]
    pinned_stride_is_block_size [of Float 4 1 5 2 3] h p
  show ?thesis by (simp add: layout_double_example layout_float_example)
qed

lemma layout_wrapping_example:
  "weight_layout Double 4 1 2305843009213693952 =
     \<lparr> p_w_index_len = 2305843009213693957, pad = 1, pp_w_index_len = 2305843009213693958,
       pp_wlen = 6917529027641081862, pp_wsize = 9223372036854775832 \<rparr>"
  by (simp add: weight_layout_def sizeof_w_def sizeof_int_def Let_def)

text \<open>
  When the size of the region wraps, the claim fails: for \<^verbatim>\<open>double\<close>, 4 neurons, one
  slab and \<open>2 ^ 61\<close> nonzero entries at most, a block has \<open>2 ^ 63 + 24\<close> bytes, the
  region for two layers has 48, and the block of layer 1 starts far beyond it.
\<close>

theorem pinned_block_outside_wrapped_region:
  "(1 :: size_t) < 2 \<and>
   pp_wsize (weight_layout Double 4 1 2305843009213693952) = 9223372036854775832 \<and>
   pinned_bytes (weight_layout Double 4 1 2305843009213693952) 2 = 48 \<and>
   layer_byte_offset (weight_layout Double 4 1 2305843009213693952) 1 = 9223372036854775832 \<and>
   unat (pinned_bytes (weight_layout Double 4 1 2305843009213693952) 2) <
     unat (layer_byte_offset (weight_layout Double 4 1 2305843009213693952) 1)"
  by (simp add: layout_wrapping_example pinned_bytes_def layer_byte_offset_def sizeof_int_def)

subsection \<open>Row compaction\<close>

lemma scan_rows_result:
  "i \<le> n \<Longrightarrow> n \<le> length rlen \<Longrightarrow>
   nnz + length (filter (\<lambda>i. 0 <s rlen ! i) [i..<n]) \<le> length rows \<Longrightarrow>
   scan_rows n rlen i rows nnz =
     Inr (take nnz rows @ map of_nat (filter (\<lambda>i. 0 <s rlen ! i) [i..<n]) @
            drop (nnz + length (filter (\<lambda>i. 0 <s rlen ! i) [i..<n])) rows,
          nnz + length (filter (\<lambda>i. 0 <s rlen ! i) [i..<n]))"
proof (induction n rlen i rows nnz rule: scan_rows.induct)
  case (1 n rlen i rows nnz)
  let ?P = "\<lambda>i. 0 <s rlen ! i"
  show ?case
  proof (cases "i < n")
    case False
    with "1.prems" show ?thesis by (subst scan_rows.simps) simp
  next
    case True
    then have upt: "[i..<n] = i # [i + 1..<n]" by (simp add: upt_conv_Cons)
    from True "1.prems" have inb: "\<not> length rlen \<le> i" by simp
    show ?thesis
    proof (cases "?P i")
      case False
      from "1.IH"(2) [OF True inb False] "1.prems" True False upt
      show ?thesis by (subst scan_rows.simps) simp
    next
      case P: True
      with "1.prems" upt have room: "\<not> length rows \<le> nnz" by simp
      have len: "nnz + 1 + length (filter ?P [i + 1..<n]) \<le> length (rows[nnz := of_nat i])"
        using "1.prems" upt P by simp
      have tk: "take (nnz + 1) (rows[nnz := of_nat i]) = take nnz rows @ [of_nat i]"
        using room by (simp add: take_Suc_conv_app_nth)
      from "1.IH"(1) [OF True inb P room _ _ len] True "1.prems"
      have "scan_rows n rlen (i + 1) (rows[nnz := of_nat i]) (nnz + 1) =
        Inr (take (nnz + 1) (rows[nnz := of_nat i]) @ map of_nat (filter ?P [i + 1..<n]) @
               drop (nnz + 1 + length (filter ?P [i + 1..<n])) (rows[nnz := of_nat i]),
             nnz + 1 + length (filter ?P [i + 1..<n]))"
        by simp
      with P inb room True upt tk show ?thesis
        by (subst scan_rows.simps) simp
    qed
  qed
qed


lemma nonzero_rows_set:
  "set (nonzero_rows n rlen) = {i. i < n \<and> 0 <s rlen ! i}"
  by (auto simp: nonzero_rows_def)

lemma nonzero_rows_increasing: "sorted_wrt (<) (nonzero_rows n rlen)"
  unfolding nonzero_rows_def by (rule sorted_wrt_filter) (simp add: sorted_wrt_upt)

lemma nonzero_rows_length:
  "length (nonzero_rows n rlen) = card {i. i < n \<and> 0 <s rlen ! i}"
proof -
  have "distinct (nonzero_rows n rlen)" by (simp add: nonzero_rows_def)
  then have "card (set (nonzero_rows n rlen)) = length (nonzero_rows n rlen)"
    by (rule distinct_card)
  then show ?thesis by (simp add: nonzero_rows_set)
qed

lemma sint_index:
  assumes "i < 2 ^ 31"
  shows "sint (of_nat i :: int32) = int i"
proof -
  from assms have "int i < 2 ^ 31" by (metis of_nat_less_iff of_nat_numeral of_nat_power)
  then have "signed_take_bit 31 (int i) = int i"
    by (intro signed_take_bit_int_eq_self) auto
  then show ?thesis by (simp add: signed_of_nat)
qed

lemma non_empty_rows_result:
  assumes "num_inputs \<le> length rlen"
    and "length (nonzero_rows num_inputs rlen) \<le> length rows"
  shows "non_empty_rows num_inputs rlen rows =
           Inr (map of_nat (nonzero_rows num_inputs rlen) @
                  drop (length (nonzero_rows num_inputs rlen)) rows,
                length (nonzero_rows num_inputs rlen))"
  using scan_rows_result [of 0 num_inputs rlen 0 rows] assms
  by (simp add: non_empty_rows_def nonzero_rows_def)

text \<open>
  Claim C5, as the code has it. For \<^verbatim>\<open>num_inputs\<close> up to \<open>2 ^ 31\<close>, a row-length
  array of that length and an array \<^verbatim>\<open>rowsY\<close> with room for the rows found,
  \<^verbatim>\<open>_non_empty_rows\<close> returns; \<^verbatim>\<open>nnz\<close> is the number of indices \<open>i\<close> below
  \<^verbatim>\<open>num_inputs\<close> with \<^verbatim>\<open>rlenY[i] > 0\<close>, and the first \<^verbatim>\<open>nnz\<close> entries of
  \<^verbatim>\<open>rowsY\<close>, read as \<^verbatim>\<open>int\<close>, are those indices in strictly increasing order.
\<close>

theorem non_empty_rows_emits_nonzero_rows:
  assumes len: "length rlen = num_inputs"
    and room: "length (nonzero_rows num_inputs rlen) \<le> length rows"
    and int_range: "num_inputs \<le> 2 ^ 31"
  shows "\<exists>rows'. non_empty_rows num_inputs rlen rows =
             Inr (rows', card {i. i < num_inputs \<and> 0 <s rlen ! i}) \<and>
           map sint (take (card {i. i < num_inputs \<and> 0 <s rlen ! i}) rows') =
             map int (nonzero_rows num_inputs rlen) \<and>
           set (nonzero_rows num_inputs rlen) = {i. i < num_inputs \<and> 0 <s rlen ! i} \<and>
           sorted_wrt (<) (nonzero_rows num_inputs rlen)"
proof -
  let ?nz = "nonzero_rows num_inputs rlen"
  let ?rows' = "map of_nat ?nz @ drop (length ?nz) rows :: int32 list"
  from len have "num_inputs \<le> length rlen" by simp
  from non_empty_rows_result [OF this room]
  have res: "non_empty_rows num_inputs rlen rows = Inr (?rows', length ?nz)" .
  have "sint (of_nat i :: int32) = int i" if "i \<in> set ?nz" for i
  proof -
    from that have "i < num_inputs" by (simp add: nonzero_rows_set)
    with int_range have "i < 2 ^ 31" by simp
    then show ?thesis by (rule sint_index)
  qed
  then have "map sint (take (length ?nz) ?rows') = map int ?nz" by simp
  with res nonzero_rows_set [of num_inputs rlen] nonzero_rows_increasing [of num_inputs rlen]
  show ?thesis by (simp add: nonzero_rows_length [symmetric])
qed

lemma nonzero_rows_example: "nonzero_rows 4 [3, 0, - 1, 7] = [0, 3]"
  by (simp add: nonzero_rows_def upt_rec word_sless_alt)

theorem non_empty_rows_emits_nonzero_rows_witness:
  "length [3, 0, - 1, 7 :: int32] = 4 \<and> length (nonzero_rows 4 [3, 0, - 1, 7]) \<le> length [9, 9, 9 :: int32] \<and>
   (4::nat) \<le> 2 ^ 31 \<and>
   non_empty_rows 4 [3, 0, - 1, 7] [9, 9, 9] = Inr ([0, 3, 9], 2) \<and>
   nonzero_rows 4 [3, 0, - 1, 7] = [0, 3]"
proof -
  have a: "length [3, 0, - 1, 7 :: int32] = 4" by simp
  have b: "length (nonzero_rows 4 [3, 0, - 1, 7]) \<le> length [9, 9, 9 :: int32]"
    by (simp add: nonzero_rows_example)
  have c: "(4::nat) \<le> 2 ^ 31" by simp
  have d: "non_empty_rows 4 [3, 0, - 1, 7] [9, 9, 9] = Inr ([0, 3, 9], 2)"
    using non_empty_rows_result [of 4 "[3, 0, - 1, 7]" "[9, 9, 9]"]
    by (simp add: nonzero_rows_example)
  from non_empty_rows_emits_nonzero_rows [OF a b c] a b c d nonzero_rows_example
  show ?thesis by simp
qed

lemma nonzero_rows_last_only:
  "nonzero_rows (Suc n) (replicate n 0 @ [1]) = [n]"
proof -
  have "filter (\<lambda>i. 0 <s (replicate n (0::int32) @ [1]) ! i) [0..<n] = []"
    by (simp add: filter_empty_conv nth_append)
  then show ?thesis by (simp add: nonzero_rows_def nth_append word_sless_alt)
qed

text \<open>
  Beyond that range the claim fails: with \<open>2 ^ 31 + 1\<close> rows of which only the last,
  row \<open>2 ^ 31\<close>, has a positive length, \<^verbatim>\<open>rowsY[0]\<close> receives the index
  narrowed to \<^verbatim>\<open>int\<close>, which is \<open>- 2 ^ 31\<close>.
\<close>

theorem non_empty_rows_index_narrowed:
  "length (replicate 2147483648 (0::int32) @ [1]) = Suc 2147483648 \<and>
   nonzero_rows (Suc 2147483648) (replicate 2147483648 0 @ [1]) = [2147483648] \<and>
   non_empty_rows (Suc 2147483648) (replicate 2147483648 0 @ [1]) [0] = Inr ([of_nat 2147483648], 1) \<and>
   sint (of_nat 2147483648 :: int32) = - 2147483648"
proof -
  let ?rlen = "replicate 2147483648 (0::int32) @ [1]"
  have a: "length ?rlen = Suc 2147483648" by (simp only: length_append length_replicate) simp
  have b: "nonzero_rows (Suc 2147483648) ?rlen = [2147483648]"
    by (rule nonzero_rows_last_only)
  have "non_empty_rows (Suc 2147483648) ?rlen [0] =
          Inr (map of_nat (nonzero_rows (Suc 2147483648) ?rlen) @
                 drop (length (nonzero_rows (Suc 2147483648) ?rlen)) [0],
               length (nonzero_rows (Suc 2147483648) ?rlen))"
    by (rule non_empty_rows_result) (simp_all only: a b, simp_all)
  then have c: "non_empty_rows (Suc 2147483648) ?rlen [0] = Inr ([of_nat 2147483648], 1)"
    by (simp only: b) simp
  have d: "sint (of_nat 2147483648 :: int32) = - 2147483648" by simp
  from a b c d show ?thesis by blast
qed

subsection \<open>Order of the calls\<close>

lemma layers_calls_Nil: "layers_calls n [] = []"
  by (simp add: layers_calls_def)

lemma layers_calls_snoc: "layers_calls n (ls @ [L]) = layers_calls n ls @ layer_calls n L"
  by (simp add: layers_calls_def)

lemma set_infer_BF_calls:
  "set (infer_BF_calls n) = (\<Union>L\<in>{0..<n}. set (layer_calls n L)) \<union> {Identify 0, DeviceSynchronize}"
  by (auto simp: infer_BF_calls_def layers_calls_def)

lemma MemcpyAsync_in_layer_calls:
  "MemcpyAsync b l \<in> set (layer_calls n L) \<longleftrightarrow> L \<noteq> n - 1 \<and> b = (L + 1) mod 2 \<and> l = L + 1"
  by (auto simp: layer_calls_def)

text \<open>
  Claim C7. In a run over \<open>n\<close> layers the copy of the weights of layer \<open>L + 1\<close> is
  issued if and only if \<open>L < n - 1\<close>; the copies issued are exactly those of the layers
  \<open>1, ..., n - 1\<close>, each into the buffer of its parity; with one layer none is issued.
\<close>

theorem prefetch_issued_iff_not_last:
  "((\<exists>b. MemcpyAsync b (L + 1) \<in> set (infer_BF_calls n)) \<longleftrightarrow> L < n - 1) \<and>
   (MemcpyAsync b l \<in> set (infer_BF_calls n) \<longleftrightarrow> 1 \<le> l \<and> l < n \<and> b = l mod 2) \<and>
   (\<forall>b l. MemcpyAsync b l \<notin> set (infer_BF_calls 1))"
proof -
  have mem: "MemcpyAsync b l \<in> set (infer_BF_calls n) \<longleftrightarrow> 1 \<le> l \<and> l < n \<and> b = l mod 2" for b l n
  proof
    assume "MemcpyAsync b l \<in> set (infer_BF_calls n)"
    then obtain L where "L < n" "MemcpyAsync b l \<in> set (layer_calls n L)"
      by (auto simp: set_infer_BF_calls)
    then show "1 \<le> l \<and> l < n \<and> b = l mod 2"
      by (auto simp: MemcpyAsync_in_layer_calls)
  next
    assume r: "1 \<le> l \<and> l < n \<and> b = l mod 2"
    then have "l - 1 < n" "l - 1 \<noteq> n - 1" "l = (l - 1) + 1" by auto
    with r have "MemcpyAsync b l \<in> set (layer_calls n (l - 1))"
      by (simp add: MemcpyAsync_in_layer_calls)
    with \<open>l - 1 < n\<close> show "MemcpyAsync b l \<in> set (infer_BF_calls n)"
      unfolding set_infer_BF_calls by (metis UN_I UnI1 atLeastLessThan_iff le0)
  qed
  have "(\<exists>b. MemcpyAsync b (L + 1) \<in> set (infer_BF_calls n)) \<longleftrightarrow> L < n - 1"
    by (auto simp: mem)
  moreover have "\<forall>b l. MemcpyAsync b l \<notin> set (infer_BF_calls 1)"
    by (auto simp: mem)
  ultimately show ?thesis using mem by blast
qed

lemma infer_BF_calls_3:
  "infer_BF_calls 3 =
     [MemcpyAsync 1 1, KernelLaunch 0 0 1, StreamSynchronize 1, NonEmptyRows 1, Memset 0, StreamSynchronize 0,
      MemcpyAsync 0 2, KernelLaunch 1 1 0, StreamSynchronize 1, NonEmptyRows 0, Memset 1, StreamSynchronize 0,
      KernelLaunch 2 0 1, StreamSynchronize 1, NonEmptyRows 1, Memset 0, StreamSynchronize 0,
      Identify 0, DeviceSynchronize]"
  by (simp add: infer_BF_calls_def layers_calls_def layer_calls_def upt_rec)

theorem prefetch_issued_iff_not_last_witness:
  "(\<exists>b. MemcpyAsync b (1 + 1) \<in> set (infer_BF_calls 3)) \<and> (1::nat) < 3 - 1 \<and>
   MemcpyAsync 0 2 \<in> set (infer_BF_calls 3) \<and> MemcpyAsync 1 3 \<notin> set (infer_BF_calls 3) \<and>
   MemcpyAsync 0 1 \<notin> set (infer_BF_calls 1)"
  using prefetch_issued_iff_not_last [of 1 3 0 2] prefetch_issued_iff_not_last [of 1 3 1 3]
  by simp


lemma weights_safe_append:
  "weights_safe (xs @ ys) d =
     (case weights_safe xs d of None \<Rightarrow> None | Some d' \<Rightarrow> weights_safe ys d')"
  by (induction xs arbitrary: d) (auto split: option.splits)

lemma mod2_flip: "(L + 1) mod 2 \<noteq> L mod (2::nat)"
  by presburger

lemma at2_upd2_same: "at2 (upd2 p i v) i = v"
  by (simp add: at2_def upd2_def)

lemma at2_upd2_flip: "at2 (upd2 p ((L + 1) mod 2) v) (L mod 2) = at2 p (L mod 2)"
  using mod2_flip [of L] by (auto simp: at2_def upd2_def)

lemma weights_safe_layer:
  assumes "copying d = []" "running d = []" "at2 (resident d) (L mod 2) = Some L"
  shows "\<exists>d'. weights_safe (layer_calls n L) d = Some d' \<and> copying d' = [] \<and> running d' = [] \<and>
              (L \<noteq> n - 1 \<longrightarrow> at2 (resident d') ((L + 1) mod 2) = Some (L + 1))"
proof (cases "L \<noteq> n - 1")
  case True
  from assms(3) have "at2 (upd2 (resident d) ((L + 1) mod 2) None) (L mod 2) = Some L"
    by (simp only: at2_upd2_flip)
  with True assms(1,2) show ?thesis
    by (simp add: layer_calls_def land_copies_def at2_upd2_same)
next
  case False
  with assms show ?thesis by (simp add: layer_calls_def land_copies_def)
qed

lemma weights_safe_layers:
  assumes "k \<le> n"
  shows "\<exists>d'. weights_safe (Memcpy 0 0 # layers_calls n [0..<k]) idle = Some d' \<and>
              copying d' = [] \<and> running d' = [] \<and>
              (k < n \<longrightarrow> at2 (resident d') (k mod 2) = Some k)"
  using assms
proof (induction k)
  case 0
  show ?case by (simp add: idle_def at2_upd2_same layers_calls_Nil)
next
  case (Suc k)
  then obtain d1 where d1: "weights_safe (Memcpy 0 0 # layers_calls n [0..<k]) idle = Some d1"
    "copying d1 = []" "running d1 = []" "at2 (resident d1) (k mod 2) = Some k"
    by auto
  from weights_safe_layer [OF d1(2,3,4), of n]
  obtain d2 where d2: "weights_safe (layer_calls n k) d1 = Some d2" "copying d2 = []" "running d2 = []"
    "k \<noteq> n - 1 \<longrightarrow> at2 (resident d2) ((k + 1) mod 2) = Some (k + 1)"
    by blast
  have "weights_safe (Memcpy 0 0 # layers_calls n [0..<Suc k]) idle = Some d2"
    using weights_safe_append [of "Memcpy 0 0 # layers_calls n [0..<k]" "layer_calls n k" idle]
      d1(1) d2(1) by (simp add: layers_calls_snoc)
  moreover have "Suc k < n \<longrightarrow> at2 (resident d2) (Suc k mod 2) = Some (Suc k)"
    using d2(4) by auto
  ultimately show ?case using d2(2,3) by blast
qed

text \<open>
  Claim C6. Replayed on the device, the calls of a run over any number of layers never
  race on a weight buffer: no copy is issued into a buffer that a kernel in flight
  reads, and every kernel is launched on a buffer that holds its layer's block
  completely, the copy having been synchronised. Within iteration \<open>L\<close> the copy
  writes buffer \<open>(L + 1) mod 2\<close> and the kernel reads buffer \<open>L mod 2\<close>, and the
  iteration ends by synchronising the transfer stream.
\<close>

theorem prefetch_never_races_with_kernel:
  "(\<exists>d. weights_safe (infer_calls n) idle = Some d \<and> copying d = [] \<and> running d = []) \<and>
   (MemcpyAsync b l \<in> set (layer_calls n L) \<and> KernelLaunch l' i o' \<in> set (layer_calls n L)
      \<longrightarrow> b = (L + 1) mod 2 \<and> i = L mod 2 \<and> b \<noteq> i) \<and>
   last (layer_calls n L) = StreamSynchronize 0"
proof -
  from weights_safe_layers [of n n]
  obtain d1 where d1: "weights_safe (Memcpy 0 0 # layers_calls n [0..<n]) idle = Some d1"
    "copying d1 = []" "running d1 = []" by auto
  have "weights_safe (infer_calls n) idle = weights_safe [Identify 0, DeviceSynchronize] d1"
    using weights_safe_append [of "Memcpy 0 0 # layers_calls n [0..<n]"
        "[Identify 0, DeviceSynchronize]" idle] d1(1)
    by (simp add: infer_calls_def infer_BF_calls_def)
  with d1(2,3) have a: "\<exists>d. weights_safe (infer_calls n) idle = Some d \<and> copying d = [] \<and> running d = []"
    by (simp add: land_copies_def)
  have b: "MemcpyAsync b l \<in> set (layer_calls n L) \<and> KernelLaunch l' i o' \<in> set (layer_calls n L)
      \<longrightarrow> b = (L + 1) mod 2 \<and> i = L mod 2 \<and> b \<noteq> i"
    using mod2_flip [of L] by (auto simp: layer_calls_def)
  have c: "last (layer_calls n L) = StreamSynchronize 0"
    by (simp add: layer_calls_def)
  from a b c show ?thesis by blast
qed

theorem prefetch_never_races_with_kernel_witness:
  "weights_safe (infer_calls 3) idle = Some \<lparr>copying = [], running = [], resident = (Some 2, Some 1)\<rparr> \<and>
   MemcpyAsync 0 2 \<in> set (layer_calls 3 1) \<and> KernelLaunch 1 1 0 \<in> set (layer_calls 3 1) \<and>
   (0::nat) = (1 + 1) mod 2 \<and> (1::nat) = 1 mod 2 \<and> last (layer_calls 3 1) = StreamSynchronize 0 \<and>
   weights_safe [Memcpy 0 0, MemcpyAsync 1 1, KernelLaunch 1 1 0] idle = None \<and>
   weights_safe [Memcpy 0 0, KernelLaunch 0 0 1, MemcpyAsync 0 2] idle = None"
proof -
  have "weights_safe (infer_calls 3) idle = Some \<lparr>copying = [], running = [], resident = (Some 2, Some 1)\<rparr>"
    by (simp add: infer_calls_def infer_BF_calls_3 idle_def at2_def upd2_def land_copies_def)
  moreover have "MemcpyAsync 0 2 \<in> set (layer_calls 3 1) \<and> KernelLaunch 1 1 0 \<in> set (layer_calls 3 1)"
    by (simp add: layer_calls_def)
  moreover have "weights_safe [Memcpy 0 0, MemcpyAsync 1 1, KernelLaunch 1 1 0] idle = None \<and>
      weights_safe [Memcpy 0 0, KernelLaunch 0 0 1, MemcpyAsync 0 2] idle = None"
    by (simp add: idle_def at2_def upd2_def)
  ultimately show ?thesis
    using prefetch_never_races_with_kernel [of 3 0 2 1 1 1 0] by simp
qed

lemma rows_safe_append:
  "rows_safe (xs @ ys) ks =
     (case rows_safe xs ks of None \<Rightarrow> None | Some ks' \<Rightarrow> rows_safe ys ks')"
  by (induction xs arbitrary: ks) (auto split: option.splits)

lemma rows_safe_layer: "rows_safe (layer_calls n L) [] = Some []"
  by (simp add: layer_calls_def)

lemma rows_safe_layers: "rows_safe (layers_calls n [0..<k]) [] = Some []"
  by (induction k) (simp_all add: rows_safe_append rows_safe_layer layers_calls_Nil layers_calls_snoc)

text \<open>
  Claim C9. In a run over any number of layers no scan of the row lengths is started
  while a kernel is in flight: in every iteration the launch is followed by the
  synchronisation of the compute stream, and only then by the scan.
\<close>

theorem scan_after_kernel_completes:
  "rows_safe (infer_BF_calls n) [] = Some [] \<and>
   (\<exists>pre. layer_calls n L =
      pre @ [KernelLaunch L (L mod 2) ((L + 1) mod 2), StreamSynchronize 1,
             NonEmptyRows ((L + 1) mod 2), Memset (L mod 2), StreamSynchronize 0])"
proof -
  have "rows_safe (infer_BF_calls n) [] = Some []"
    by (simp add: infer_BF_calls_def rows_safe_append rows_safe_layers)
  then show ?thesis by (simp add: layer_calls_def)
qed

theorem scan_after_kernel_completes_witness:
  "rows_safe (infer_BF_calls 3) [] = Some [] \<and>
   rows_safe [KernelLaunch 0 0 1, NonEmptyRows 1] [] = None"
  using scan_after_kernel_completes [of 3 0] by simp

subsection \<open>The layer pipeline on the buffers\<close>

lemma sized_at2: "sized m p \<Longrightarrow> length (at2 p i) = m"
  by (simp add: sized_def at2_def)

lemma sized_upd2: "sized m p \<Longrightarrow> length v = m \<Longrightarrow> sized m (upd2 p i v)"
  by (simp add: sized_def upd2_def)

lemma length_store: "length (store f buf) = length buf"
  by (simp add: store_def)

lemma allocated_infer_buffers: "allocated e n (infer_buffers e n inp fresh_Y fresh_W)"
  by (simp add: allocated_def infer_buffers_def sized_def)

lemma allocated_copy_weights: "allocated e n s \<Longrightarrow> allocated e n (copy_weights e b l s)"
  by (simp add: allocated_def copy_weights_def)

lemma allocated_launch:
  assumes "allocated e n s"
  shows "allocated e n (launch k e i j s)"
proof -
  from assms have y: "sized (n * num_neurons_per_layer e) (Y s)"
    and r: "sized n (rowsY s)" and l: "sized n (rlenY s)"
    by (simp_all add: allocated_def)
  show ?thesis
    unfolding allocated_def launch_def Let_def
    by (simp add: sized_upd2 sized_at2 length_store y r l)
qed

lemma length_nonzero_rows_le: "length (nonzero_rows n rlen) \<le> n"
proof -
  have "length (nonzero_rows n rlen) \<le> length [0..<n]"
    unfolding nonzero_rows_def by (rule length_filter_le)
  then show ?thesis by simp
qed

lemma compact_rows_allocated:
  assumes "allocated e n s"
  shows "\<exists>s'. compact_rows n b s = Inr s' \<and> allocated e n s' \<and> Y s' = Y s \<and>
              results s' = results s \<and>
              nerowsY s' = length (nonzero_rows n (at2 (rlenY s) b))"
proof -
  let ?rlen = "at2 (rlenY s) b" and ?rows = "at2 (rowsY s) b"
  let ?nz = "nonzero_rows n ?rlen"
  from assms have lr: "length ?rlen = n" and lw: "length ?rows = n"
    by (simp_all add: allocated_def sized_at2)
  have "non_empty_rows n ?rlen ?rows = Inr (map of_nat ?nz @ drop (length ?nz) ?rows, length ?nz)"
    using lr lw length_nonzero_rows_le [of n ?rlen] by (intro non_empty_rows_result) simp_all
  moreover have "length (map of_nat ?nz @ drop (length ?nz) ?rows :: int32 list) = n"
    using length_nonzero_rows_le [of n ?rlen] lw by simp
  ultimately show ?thesis using assms
    by (simp add: compact_rows_def allocated_def sized_upd2)
qed

lemma reset_buffer_allocated:
  assumes "allocated e n s"
  shows "\<exists>s'. reset_buffer e n b s = Inr s' \<and> allocated e n s' \<and>
              at2 (Y s') b = replicate (n * num_neurons_per_layer e) 0 \<and>
              nerowsY s' = nerowsY s \<and> results s' = results s"
proof -
  from assms have "length (at2 (Y s) b) = n * num_neurons_per_layer e"
    by (simp add: allocated_def sized_at2)
  then have "cudaMemset0 (n * num_neurons_per_layer e) (at2 (Y s) b) =
      Inr (replicate (n * num_neurons_per_layer e) 0)"
    by (simp add: cudaMemset0_def)
  with assms show ?thesis
    by (simp add: reset_buffer_def allocated_def sized_upd2 at2_upd2_same)
qed

lemma run_append:
  "run k idf e n (xs @ ys) s =
     (case run k idf e n xs s of Inl err \<Rightarrow> Inl err | Inr s' \<Rightarrow> run k idf e n ys s')"
  by (induction xs arbitrary: s) (auto split: sum.splits)

text \<open>One iteration, from buffers of the allocated sizes: it does not fail, it leaves
  the buffer it has read cleared, and the new row count is the number of positive
  entries of the row lengths the kernel has written.\<close>

lemma run_layer:
  assumes al: "allocated e n s"
  shows "\<exists>s1 s'. run k idf e n (layer_calls nl L) s = Inr s' \<and>
           allocated e n s1 \<and> nerowsY s1 = nerowsY s \<and> allocated e n s' \<and>
           results s' = results s \<and>
           at2 (Y s') (L mod 2) = replicate (n * num_neurons_per_layer e) 0 \<and>
           nerowsY s' =
             length (nonzero_rows n
               (at2 (rlenY (launch k e (L mod 2) ((L + 1) mod 2) s1)) ((L + 1) mod 2)))"
proof -
  define s1 where "s1 = (if L \<noteq> nl - 1 then copy_weights e ((L + 1) mod 2) (L + 1) s else s)"
  have s1: "allocated e n s1" "nerowsY s1 = nerowsY s" "results s1 = results s"
    using al by (simp_all add: s1_def allocated_copy_weights) (simp_all add: copy_weights_def)
  let ?s2 = "launch k e (L mod 2) ((L + 1) mod 2) s1"
  from s1(1) have "allocated e n ?s2" by (rule allocated_launch)
  from compact_rows_allocated [OF this, of "(L + 1) mod 2"]
  obtain s3 where s3: "compact_rows n ((L + 1) mod 2) ?s2 = Inr s3" "allocated e n s3"
    "nerowsY s3 = length (nonzero_rows n (at2 (rlenY ?s2) ((L + 1) mod 2)))"
    "results s3 = results ?s2" by blast
  have r2: "results ?s2 = results s1" by (simp add: launch_def Let_def)
  from reset_buffer_allocated [OF s3(2), of "L mod 2"]
  obtain s4 where s4: "reset_buffer e n (L mod 2) s3 = Inr s4" "allocated e n s4"
    "at2 (Y s4) (L mod 2) = replicate (n * num_neurons_per_layer e) 0" "nerowsY s4 = nerowsY s3"
    "results s4 = results s3" by blast
  have "run k idf e n (layer_calls nl L) s = Inr s4"
  proof (cases "L \<noteq> nl - 1")
    case True
    with s3(1) s4(1) show ?thesis by (simp add: layer_calls_def s1_def)
  next
    case False
    with s3(1) s4(1) show ?thesis by (simp add: layer_calls_def s1_def)
  qed
  moreover have "results s4 = results s" using s4(5) s3(4) r2 s1(3) by simp
  ultimately show ?thesis using s1 s3 s4 by metis
qed

lemma run_layers:
  assumes "allocated e n s"
  shows "\<exists>s'. run k idf e n (layers_calls nl [0..<L]) s = Inr s' \<and> allocated e n s' \<and>
              results s' = results s \<and>
              (1 \<le> L \<longrightarrow> at2 (Y s') ((L + 1) mod 2) = replicate (n * num_neurons_per_layer e) 0)"
proof (induction L)
  case 0
  with assms show ?case by (simp add: layers_calls_Nil)
next
  case (Suc L)
  then obtain s1 where s1: "run k idf e n (layers_calls nl [0..<L]) s = Inr s1" "allocated e n s1"
    "results s1 = results s" by blast
  from run_layer [OF s1(2), of k idf nl L]
  obtain s2 where s2: "run k idf e n (layer_calls nl L) s1 = Inr s2" "allocated e n s2"
    "at2 (Y s2) (L mod 2) = replicate (n * num_neurons_per_layer e) 0" "results s2 = results s1"
    by blast
  have "(Suc L + 1) mod 2 = L mod 2" by presburger
  with s1 s2 show ?case by (simp add: layers_calls_snoc run_append)
qed

lemma run_calls_through:
  "\<exists>s'. run k idf e n (calls_through nl L) (infer_buffers e n inp fresh_Y fresh_W) = Inr s' \<and>
        allocated e n s' \<and> results s' = replicate n 0 \<and>
        (1 \<le> L \<longrightarrow> at2 (Y s') ((L + 1) mod 2) = replicate (n * num_neurons_per_layer e) 0)"
proof -
  have "allocated e n (copy_weights e 0 0 (infer_buffers e n inp fresh_Y fresh_W))"
    by (intro allocated_copy_weights allocated_infer_buffers)
  from run_layers [OF this, of k idf nl L] show ?thesis
    by (simp add: calls_through_def) (simp add: copy_weights_def infer_buffers_def)
qed

lemma infer_calls_split:
  assumes "L < nl"
  shows "\<exists>rest. infer_calls nl =
           calls_until_launch nl L @ KernelLaunch L (L mod 2) ((L + 1) mod 2) # rest"
proof -
  from assms have "[0..<nl] = [0..<L] @ [L..<nl]"
    using upt_add_eq_append [of 0 L "nl - L"] by simp
  with assms have "[0..<nl] = [0..<L] @ L # [L + 1..<nl]"
    by (simp add: upt_conv_Cons)
  then have "layers_calls nl [0..<nl] =
      layers_calls nl [0..<L] @ layer_calls nl L @ layers_calls nl [L + 1..<nl]"
    by (simp add: layers_calls_def)
  then show ?thesis
    by (simp add: infer_calls_def infer_BF_calls_def calls_until_launch_def calls_through_def
        layer_calls_def)
qed

text \<open>
  Claim C8, as the code has it. Whatever the kernel does, for every layer \<open>L\<close> from 1
  on the run of \<^verbatim>\<open>infer\<close> reaches the launch of layer \<open>L\<close>, and at that launch the
  output feature buffer \<^verbatim>\<open>Y[(L + 1) % 2]\<close> holds zeros only: the iteration before has
  cleared it.
\<close>

theorem output_buffer_zero_from_layer_one:
  assumes "1 \<le> L" and "L < num_layers e"
  shows "(\<exists>rest. infer_calls (num_layers e) =
            calls_until_launch (num_layers e) L @ KernelLaunch L (L mod 2) ((L + 1) mod 2) # rest) \<and>
         (\<exists>s. run bf_inference identify e num_inputs (calls_until_launch (num_layers e) L)
                (infer_buffers e num_inputs inp fresh_Y fresh_W) = Inr s \<and>
              kY1 (launch_args e (L mod 2) ((L + 1) mod 2) s) =
                replicate (num_inputs * num_neurons_per_layer e) 0)"
proof -
  from run_calls_through [of bf_inference identify e num_inputs "num_layers e" L inp fresh_Y fresh_W]
    assms(1)
  obtain s where s: "run bf_inference identify e num_inputs (calls_through (num_layers e) L)
      (infer_buffers e num_inputs inp fresh_Y fresh_W) = Inr s"
    "at2 (Y s) ((L + 1) mod 2) = replicate (num_inputs * num_neurons_per_layer e) 0"
    by blast
  have "\<exists>s'. run bf_inference identify e num_inputs (calls_until_launch (num_layers e) L)
      (infer_buffers e num_inputs inp fresh_Y fresh_W) = Inr s' \<and> Y s' = Y s"
    using s(1) by (simp add: calls_until_launch_def run_append copy_weights_def)
  with s(2) infer_calls_split [OF assms(2)] show ?thesis
    by (auto simp: launch_args_def)
qed


lemma replicate_2: "replicate 2 x = [x, x]"
  by (simp add: numeral_2_eq_2)

lemma replicate_4: "replicate 4 x = [x, x, x, x]"
  by (simp add: eval_nat_numeral)

lemma demo_buffers_eq:
  "demo_buffers layers =
     \<lparr> d_W = ((), ()), Y = ([2, 0, 1, 0], [7, 7, 7, 7]), rowsY = ([0, 1], [0, 0]),
       rlenY = ([1, 1], [0, 0]), nerowsY = 2, results = [0, 0] \<rparr>"
  by (simp add: demo_buffers_def infer_buffers_def demo_engine_def demo_input_def
      upt_conv_Cons replicate_2)

lemma demo_scan_0: "non_empty_rows 2 [1, 0] [0, 0] = Inr ([0, 0], 1)"
  using non_empty_rows_result [of 2 "[1, 0]" "[0, 0]"]
  by (simp add: nonzero_rows_def upt_conv_Cons word_sless_alt)

lemmas demo_simps =
  layer_calls_def copy_weights_def launch_def launch_args_def compact_rows_def reset_buffer_def
  cudaMemset0_def store_def spec_bf_inference_def
  active_rows_def row_of_def demo_neuron_def demo_engine_def at2_def upd2_def Let_def
  upt_conv_Cons replicate_4

lemma demo_through_1:
  "run (spec_bf_inference demo_neuron) idf (demo_engine layers) 2 (calls_through layers 1)
     (demo_buffers layers) =
     Inr \<lparr> d_W = ((), ()), Y = ([0, 0, 0, 0], [1, 0, 0, 0]), rowsY = ([0, 1], [0, 0]),
           rlenY = ([1, 1], [1, 0]), nerowsY = 1, results = [0, 0] \<rparr>"
  by (simp add: calls_through_def layers_calls_def demo_buffers_eq demo_simps demo_scan_0)

theorem output_buffer_zero_from_layer_one_witness:
  "(1::nat) \<le> 1 \<and> (1::nat) < num_layers (demo_engine 2) \<and>
   (\<exists>rest. infer_calls 2 = calls_until_launch 2 1 @ KernelLaunch 1 1 0 # rest) \<and>
   run (spec_bf_inference demo_neuron) (\<lambda>y n m r. r) (demo_engine 2) 2 (calls_until_launch 2 1)
       (demo_buffers 2) =
     Inr \<lparr> d_W = ((), ()), Y = ([0, 0, 0, 0], [1, 0, 0, 0]), rowsY = ([0, 1], [0, 0]),
           rlenY = ([1, 1], [1, 0]), nerowsY = 1, results = [0, 0] \<rparr> \<and>
   kY1 (launch_args (demo_engine 2) 1 0
         \<lparr> d_W = ((), ()), Y = ([0, 0, 0, 0], [1, 0, 0, 0]), rowsY = ([0, 1], [0, 0]),
           rlenY = ([1, 1], [1, 0]), nerowsY = 1, results = [0, 0] \<rparr>) = [0, 0, 0, 0]"
proof -
  let ?K = "spec_bf_inference demo_neuron"
  let ?idf = "\<lambda>(y :: int list) (n :: nat) (m :: nat) (r :: int32 list). r"
  let ?S = "\<lparr> d_W = ((), ()), Y = ([0, 0, 0, 0], [1, 0, 0, 0 :: int]), rowsY = ([0, 1], [0, 0]),
           rlenY = ([1, 1], [1, 0]), nerowsY = 1, results = [0, 0] \<rparr> :: (int, unit) buffers"
  have one: "(1::nat) \<le> 1" by simp
  have nl: "num_layers (demo_engine 2) = 2" "num_neurons_per_layer (demo_engine 2) = 2"
    by (simp_all add: demo_engine_def)
  then have lt: "(1::nat) < num_layers (demo_engine 2)" by simp
  have idx: "(1::nat) mod 2 = 1" "((1::nat) + 1) mod 2 = 0" by simp_all
  have until: "calls_until_launch 2 1 = calls_through 2 1"
    by (simp add: calls_until_launch_def)
  have run: "run ?K ?idf (demo_engine 2) 2 (calls_until_launch 2 1) (demo_buffers 2) = Inr ?S"
    by (simp only: until demo_through_1)
  from output_buffer_zero_from_layer_one [OF one lt, where num_inputs = 2
      and bf_inference = ?K and identify = ?idf and inp = demo_input and fresh_Y = "\<lambda>i. 7"
      and fresh_W = "((), ())", folded demo_buffers_def, unfolded nl idx]
  obtain s where split: "\<exists>rest. infer_calls 2 = calls_until_launch 2 1 @ KernelLaunch 1 1 0 # rest"
    and s: "run ?K ?idf (demo_engine 2) 2 (calls_until_launch 2 1) (demo_buffers 2) = Inr s"
      "kY1 (launch_args (demo_engine 2) 1 0 s) = replicate (2 * 2) 0" by blast
  from s(1) have "s = ?S" by (simp only: run sum.inject)
  with s(2) have "kY1 (launch_args (demo_engine 2) 1 0 ?S) = [0, 0, 0, 0]"
    by (simp add: replicate_4)
  with one lt split run show ?thesis by blast
qed

text \<open>
  At the launch of layer 0 the output buffer is \<^verbatim>\<open>Y[1]\<close> as allocated, which no call
  has cleared: in the small run it holds 7 in every cell.
\<close>

theorem output_buffer_of_layer_zero_not_cleared:
  "(0::nat) < num_layers (demo_engine 2) \<and>
   (\<exists>rest. infer_calls 2 = calls_until_launch 2 0 @ KernelLaunch 0 0 1 # rest) \<and>
   run (spec_bf_inference demo_neuron) (\<lambda>y n m r. r) (demo_engine 2) 2 (calls_until_launch 2 0)
       (demo_buffers 2) = Inr (demo_buffers 2) \<and>
   kY1 (launch_args (demo_engine 2) 0 1 (demo_buffers 2)) = [7, 7, 7, 7] \<and>
   replicate (2 * num_neurons_per_layer (demo_engine 2)) 0 = [0, 0, 0, 0 :: int]"
proof -
  have "\<exists>rest. infer_calls 2 = calls_until_launch 2 0 @ KernelLaunch 0 0 1 # rest"
    using infer_calls_split [of 0 2] by simp
  moreover have "run (spec_bf_inference demo_neuron) (\<lambda>y n m r. r) (demo_engine 2) 2
      (calls_until_launch 2 0) (demo_buffers 2) = Inr (demo_buffers 2)"
    by (simp add: calls_until_launch_def calls_through_def layers_calls_Nil copy_weights_def
        demo_buffers_eq upd2_def)
  moreover have "kY1 (launch_args (demo_engine 2) 0 1 (demo_buffers 2)) = [7, 7, 7, 7]"
    by (simp add: demo_buffers_eq launch_args_def at2_def)
  ultimately show ?thesis by (simp add: demo_engine_def replicate_4)
qed

lemma last_launch_and_identify:
  assumes "1 \<le> n"
  shows "KernelLaunch (n - 1) ((n - 1) mod 2) (n mod 2) \<in> set (infer_BF_calls n) \<and>
         (Identify b \<in> set (infer_BF_calls n) \<longleftrightarrow> b = 0)"
proof -
  from assms have "(n - 1 + 1) mod 2 = n mod 2" by simp
  then have "KernelLaunch (n - 1) ((n - 1) mod 2) (n mod 2) \<in> set (layer_calls n (n - 1))"
    by (simp add: layer_calls_def)
  moreover from assms have "n - 1 \<in> {0..<n}" by auto
  ultimately have "KernelLaunch (n - 1) ((n - 1) mod 2) (n mod 2) \<in> set (infer_BF_calls n)"
    unfolding set_infer_BF_calls by blast
  moreover have "Identify b \<in> set (infer_BF_calls n) \<longleftrightarrow> b = 0"
    by (auto simp: set_infer_BF_calls layer_calls_def)
  ultimately show ?thesis by blast
qed

lemma infer_calls_through: "infer_calls nl = calls_through nl nl @ [Identify 0, DeviceSynchronize]"
  by (simp add: infer_calls_def infer_BF_calls_def calls_through_def)

text \<open>With an odd number of layers, whatever the kernel and the input, \<^verbatim>\<open>identify\<close>
  is given a buffer of zeros.\<close>

lemma identify_input_cleared_when_odd:
  assumes "odd (num_layers e)"
  shows "\<exists>s. infer bf_inference identify e num_inputs inp fresh_Y fresh_W = Inr s \<and>
             results s = identify (replicate (num_inputs * num_neurons_per_layer e) 0)
                           num_inputs (num_neurons_per_layer e) (replicate num_inputs 0)"
proof -
  from assms have pos: "1 \<le> num_layers e" by (cases "num_layers e") auto
  from assms have "(num_layers e + 1) mod 2 = 0" by presburger
  with run_calls_through [of bf_inference identify e num_inputs "num_layers e" "num_layers e"
      inp fresh_Y fresh_W] pos
  obtain s where "run bf_inference identify e num_inputs (calls_through (num_layers e) (num_layers e))
      (infer_buffers e num_inputs inp fresh_Y fresh_W) = Inr s"
    "results s = replicate num_inputs 0"
    "at2 (Y s) 0 = replicate (num_inputs * num_neurons_per_layer e) 0"
    by auto
  then show ?thesis by (simp add: infer_def infer_calls_through run_append)
qed

text \<open>
  Claim C3 fails on the code with one layer (and with any odd number of layers, by the
  lemma above). Layer 0 writes \<^verbatim>\<open>Y[1]\<close>, the loop clears \<^verbatim>\<open>Y[0]\<close>, and
  \<^verbatim>\<open>identify\<close> is launched on \<^verbatim>\<open>Y[0]\<close>: in the small run the activations
  \<open>[1, 0, 0, 0]\<close> of the final layer sit in \<^verbatim>\<open>Y[1]\<close> and the reduction is given
  \<open>[0, 0, 0, 0]\<close>.
\<close>

theorem identify_reads_cleared_buffer_one_layer:
  "infer_calls 1 =
     [Memcpy 0 0, KernelLaunch 0 0 1, StreamSynchronize 1, NonEmptyRows 1, Memset 0,
      StreamSynchronize 0, Identify 0, DeviceSynchronize] \<and>
   (\<forall>identify.
      infer (spec_bf_inference demo_neuron) identify (demo_engine 1) 2 demo_input (\<lambda>i. 7) ((), ()) =
        Inr \<lparr> d_W = ((), ()), Y = ([0, 0, 0, 0], [1, 0, 0, 0]), rowsY = ([0, 1], [0, 0]),
              rlenY = ([1, 1], [1, 0]), nerowsY = 1,
              results = identify [0, 0, 0, 0] 2 2 [0, 0] \<rparr>)"
proof -
  have calls: "infer_calls 1 =
     [Memcpy 0 0, KernelLaunch 0 0 1, StreamSynchronize 1, NonEmptyRows 1, Memset 0,
      StreamSynchronize 0, Identify 0, DeviceSynchronize]"
    by (simp add: infer_calls_def infer_BF_calls_def layers_calls_def layer_calls_def)
  have nl: "num_layers (demo_engine 1) = 1" by (simp add: demo_engine_def)
  have "infer (spec_bf_inference demo_neuron) identify (demo_engine 1) 2 demo_input (\<lambda>i. 7) ((), ()) =
        Inr \<lparr> d_W = ((), ()), Y = ([0, 0, 0, 0], [1, 0, 0, 0]), rowsY = ([0, 1], [0, 0]),
              rlenY = ([1, 1], [1, 0]), nerowsY = 1,
              results = identify [0, 0, 0, 0] 2 2 [0, 0] \<rparr>" for identify
    unfolding infer_def nl infer_calls_through run_append demo_buffers_def [symmetric]
      demo_through_1
    by (simp add: at2_def demo_engine_def)
  with calls show ?thesis by blast
qed

end
